theory Spec2Isabelle
  imports Complex_Main "HOL-Library.Word" "HOL-Library.Signed_Division"
begin

unbundle bit_operations_syntax

section \<open>Machine types and failures\<close>

text \<open>
  The sources assume an LP64 platform (\<open>long(&key)\<close> stores a pointer in a \<open>long\<close>):
  \<open>size_t\<close> and \<open>long\<close> are 64 bits wide, \<open>int\<close> 32 and \<open>short\<close> 16.  Unsigned
  arithmetic wraps; signed values are read with \<open>sint\<close>.
\<close>

type_synonym size_t = "64 word"
type_synonym long = "64 word"
type_synonym short = "16 word"

text \<open>
  Every \<open>throw\<close> and every trap of the sources is a value:
  \<^item> \<open>OutOfRange\<close>: the \<open>std::out_of_range\<close> of a \<open>ValidateBoundaries\<close>;
  \<^item> \<open>KeyNotFound\<close>: the \<open>std::out_of_range\<close> thrown at the end of \<open>HashTable::Get\<close>;
  \<^item> \<open>InvalidThreshold\<close>: the \<open>std::out_of_range\<close> of \<open>HashTable::ValidateThreshold\<close>;
  \<^item> \<open>DivisionByZero\<close>: an integer division or remainder by zero;
  \<^item> \<open>NullPointer\<close>: a member access through \<open>nullptr\<close> or through a pointer to no node;
  \<^item> \<open>BadAlloc\<close>: the \<open>std::bad_alloc\<close> of a new-expression that is not granted, or its
    subclass \<open>std::bad_array_new_length\<close>.
\<close>

datatype error =
  OutOfRange | KeyNotFound | InvalidThreshold | DivisionByZero | NullPointer | BadAlloc

section \<open>Array\<close>

text \<open>
  An \<open>Array<T>\<close> owns a buffer of exactly \<open>length\<close> elements, so it is the list of
  its elements and \<open>Length()\<close> is the length of the list.  \<open>new T[length]\<close>
  default-initialises each slot: the parameter \<open>fresh\<close> gives what that leaves in slot
  \<open>i\<close> (\<open>T()\<close> for a class type; for a scalar type an indeterminate value, which need
  not be the same in every slot).
\<close>

type_synonym 'a Array = "'a list"

text \<open>The buffer that \<open>new T[length]\<close> returns when it is granted.\<close>

definition new_array :: "(nat \<Rightarrow> 'a) \<Rightarrow> nat \<Rightarrow> 'a Array" where
  "new_array fresh len = map fresh [0..<len]"

text \<open>
  \<open>new T[length]\<close> is not always granted: it throws \<open>std::bad_array_new_length\<close> when
  \<open>length * sizeof(T)\<close> is beyond what the implementation can allocate, and
  \<open>std::bad_alloc\<close> when the free store has no room.  What is granted depends on the
  platform and on the moment, so it is a parameter of every operation that requests an
  array whose length its caller chooses: \<open>store\<close> is the largest number of elements, of
  the element type at hand, that the free store grants in one array (together with what
  the default constructors of these elements request).  Requests of a size that the
  sources fix (a node, the strings and the digit array of the hash function, the 200
  slots of a default-constructed \<open>DynamicArray\<close>) are taken to be granted.
\<close>

text \<open>\<open>Array(length)\<close>, requesting its buffer from the free store.\<close>

definition Array_new :: "nat \<Rightarrow> (nat \<Rightarrow> 'a) \<Rightarrow> nat \<Rightarrow> error + 'a Array" where
  "Array_new store fresh len =
     (if len \<le> store then Inr (new_array fresh len) else Inl BadAlloc)"

text \<open>\<open>operator[]\<close> with its \<open>ValidateBoundaries\<close>.\<close>

definition Array_at :: "'a Array \<Rightarrow> nat \<Rightarrow> error + 'a" where
  "Array_at a index = (if index < length a then Inr (a ! index) else Inl OutOfRange)"

text \<open>\<open>Resize(length)\<close>: a new array, the overlapping prefix copied slot by slot.\<close>

definition Resize :: "nat \<Rightarrow> (nat \<Rightarrow> 'a) \<Rightarrow> 'a Array \<Rightarrow> nat \<Rightarrow> error + 'a Array" where
  "Resize store fresh a len =
     (case Array_new store fresh len of
        Inl e \<Rightarrow> Inl e
      | Inr resizedArray \<Rightarrow>
          Inr (fold (\<lambda>i r. r[i := a ! i]) [0..<min (length a) len] resizedArray))"

text \<open>
  \<open>Resize(length, defaultValue)\<close>.  Inside the method the name \<open>length\<close> is the
  parameter (it hides the member), so the guard reads \<open>length <= length\<close> and the loop
  runs from \<open>length\<close> to \<open>length\<close>; both are written here as the source has them.
\<close>

definition Resize_with ::
  "nat \<Rightarrow> (nat \<Rightarrow> 'a) \<Rightarrow> 'a Array \<Rightarrow> nat \<Rightarrow> 'a \<Rightarrow> error + 'a Array" where
  "Resize_with store fresh a len defaultValue =
     (case Resize store fresh a len of
        Inl e \<Rightarrow> Inl e
      | Inr resizedArray \<Rightarrow>
          if len \<le> len then Inr resizedArray
          else Inr (fold (\<lambda>i r. r[i := defaultValue]) [len..<len] resizedArray))"

section \<open>MurmurHashingAlgorithm\<close>

text \<open>
  \<open>std::to_string(long)\<close> of the C++ standard library: the decimal digits, after a
  minus sign for a negative number.
\<close>

definition digit_char :: "int \<Rightarrow> char" where
  "digit_char d = char_of (48 + d)"

function to_string_digits :: "int \<Rightarrow> string" where
  "to_string_digits n =
     (if n < 10 then [digit_char n] else to_string_digits (n div 10) @ [digit_char (n mod 10)])"
  by pat_completeness auto
termination
  by (relation "measure nat") auto

declare to_string_digits.simps [simp del]

definition to_string :: "int \<Rightarrow> string" where
  "to_string i = (if i < 0 then CHR ''-'' # to_string_digits (- i) else to_string_digits i)"

text \<open>
  \<open>ToBinary\<close>: the loop prepends \<open>to_string(value % 2)\<close> and divides by two until the
  value is zero.  \<open>%\<close> and \<open>/\<close> truncate towards zero (\<open>smod\<close>, \<open>sdiv\<close>), so a negative
  value contributes the two characters \<open>-1\<close> for each set bit.
\<close>

function ToBinary_loop :: "int \<Rightarrow> string \<Rightarrow> string" where
  "ToBinary_loop v binaryValue =
     (if v = 0 then binaryValue
      else ToBinary_loop (v sdiv 2) (to_string (v smod 2) @ binaryValue))"
  by pat_completeness auto
termination
proof (relation "measure (\<lambda>(v, s). nat \<bar>v\<bar>)")
  show "wf (measure (\<lambda>(v, s). nat \<bar>v\<bar>))"
    by simp
next
  fix v :: int and binaryValue :: string
  assume "v \<noteq> 0"
  then have "\<bar>v sdiv 2\<bar> < \<bar>v\<bar>"
    by (auto simp: signed_divide_int_def abs_mult sgn_if)
  then show "((v sdiv 2, to_string (v smod 2) @ binaryValue), (v, binaryValue))
             \<in> measure (\<lambda>(v, s). nat \<bar>v\<bar>)"
    by simp
qed

declare ToBinary_loop.simps [simp del]

definition ToBinary :: "int \<Rightarrow> string" where
  "ToBinary v = ToBinary_loop v []"

text \<open>
  \<open>ToDecimal\<close> adds \<open>(value[i] - '0') * pow(2, size - i - 1)\<close> over the characters.  The
  source computes each term in \<open>double\<close>; on the strings it is given here (at most four
  characters) every intermediate value is a small integer, which \<open>double\<close> holds exactly.
\<close>

definition ToDecimal :: "string \<Rightarrow> int" where
  "ToDecimal s =
     fold (\<lambda>i decimalValue.
             decimalValue + (of_char (s ! i) - of_char CHR ''0'') * 2 ^ (length s - i - 1))
          [0..<length s] 0"

text \<open>
  \<open>ToByteArray\<close>: \<open>BIT_COUNT_IN_BYTE\<close> is 4; the chunks are cut from the front of the
  binary string with \<open>substr\<close>, so the last chunk is the short one.  Each decimal value
  is stored into a \<open>short\<close>.  Every slot of the fresh array is assigned.
\<close>

definition BIT_COUNT_IN_BYTE :: nat where
  "BIT_COUNT_IN_BYTE = 4"

definition substr :: "string \<Rightarrow> nat \<Rightarrow> nat \<Rightarrow> string" where
  "substr s pos n = take n (drop pos s)"

definition ToByteArray :: "int \<Rightarrow> short Array" where
  "ToByteArray v =
     (let binaryValue = ToBinary v;
          byteCount = nat \<lceil>rat_of_nat (length binaryValue) / rat_of_nat BIT_COUNT_IN_BYTE\<rceil>
      in fold (\<lambda>i bytes.
                 bytes[i := word_of_int
                    (ToDecimal (substr binaryValue (i * BIT_COUNT_IN_BYTE) BIT_COUNT_IN_BYTE))])
              [0..<byteCount] (new_array (\<lambda>i. 0) byteCount))"

definition PRIME :: long where
  "PRIME = 2003"

definition SHIFTING_RATE :: nat where
  "SHIFTING_RATE = 24"

definition LONG_MAX :: long where
  "LONG_MAX = 0x7FFFFFFFFFFFFFFF"

text \<open>
  One round of the loop over \<open>bytes\<close>.  \<open>byte\<close> is a \<open>short&\<close>: each product is
  computed in \<open>long\<close> and narrowed to 16 bits by the assignment; \<open>byte >> 24\<close> is
  computed on the value promoted to \<open>int\<close>; in \<open>hashValue ^= byte\<close> the \<open>short\<close> is
  sign-extended.  \<open>hashValue * PRIME\<close> wraps (two's complement) before it is masked.
\<close>

definition Murmur_round :: "short \<Rightarrow> long \<Rightarrow> long" where
  "Murmur_round byte hashValue =
     (let byte1 = (ucast ((scast byte * PRIME) AND LONG_MAX) :: short);
          byte2 = byte1 XOR ucast (signed_drop_bit SHIFTING_RATE (scast byte1 :: 32 word));
          byte3 = (ucast ((scast byte2 * PRIME) AND LONG_MAX) :: short);
          hashValue1 = (hashValue * PRIME) AND LONG_MAX
      in hashValue1 XOR scast byte3)"

definition MurmurHashingAlgorithm :: "long \<Rightarrow> long \<Rightarrow> long" where
  "MurmurHashingAlgorithm rawHashing seed =
     (let hashValue0 = seed XOR of_nat (length (to_string (sint rawHashing)));
          bytes = ToByteArray (sint rawHashing);
          hashValue1 = fold Murmur_round bytes hashValue0;
          hashValue2 = hashValue1 XOR signed_drop_bit SHIFTING_RATE hashValue1;
          hashValue3 = (hashValue2 * PRIME) AND LONG_MAX
      in hashValue3 XOR signed_drop_bit SHIFTING_RATE hashValue3)"

section \<open>The hash computation as the specification words it\<close>

text \<open>
  The count of binary digits and the count of decimal digits of a number, and its
  4-bit digits: digit \<open>i\<close> is cut from the binary representation at bit \<open>4 * i\<close> counted
  from the most significant bit, and is shorter than four bits when fewer remain.
\<close>

fun bit_count :: "nat \<Rightarrow> nat" where
  "bit_count n = (if n = 0 then 0 else Suc (bit_count (n div 2)))"

fun decimal_count :: "nat \<Rightarrow> nat" where
  "decimal_count n = (if n < 10 then 1 else Suc (decimal_count (n div 10)))"

definition nibble :: "nat \<Rightarrow> nat \<Rightarrow> nat" where
  "nibble n i =
     (n div 2 ^ (bit_count n - min (bit_count n) (4 * i + 4))) mod 2 ^ min 4 (bit_count n - 4 * i)"

definition nibbles :: "nat \<Rightarrow> nat list" where
  "nibbles n = map (nibble n) [0..<(bit_count n + 3) div 4]"

text \<open>The closing shift-XOR, prime-multiply, shift-XOR.\<close>

definition Hash_finish :: "long \<Rightarrow> long" where
  "Hash_finish h =
     (let h1 = h XOR signed_drop_bit SHIFTING_RATE h;
          h2 = (h1 * PRIME) AND LONG_MAX
      in h2 XOR signed_drop_bit SHIFTING_RATE h2)"

text \<open>
  The computation as Claim C5 words it: the accumulator starts from the seed XOR the
  count of the 4-bit digits; each digit is folded in by the round of the source.
\<close>

definition Hash_reference :: "long \<Rightarrow> long \<Rightarrow> long" where
  "Hash_reference rawValue seed =
     (let digits = nibbles (unat rawValue)
      in Hash_finish (fold Murmur_round (map word_of_nat digits) (seed XOR of_nat (length digits))))"

text \<open>The same computation, the accumulator starting from the seed XOR the count of
  decimal digits.\<close>

definition Hash_amended :: "long \<Rightarrow> long \<Rightarrow> long" where
  "Hash_amended rawValue seed =
     (let digits = nibbles (unat rawValue)
      in Hash_finish (fold Murmur_round (map word_of_nat digits)
                        (seed XOR of_nat (decimal_count (unat rawValue)))))"

text \<open>The binary digits of a number, most significant first, and the number they denote.\<close>

fun bits :: "nat \<Rightarrow> nat list" where
  "bits n = (if n = 0 then [] else bits (n div 2) @ [n mod 2])"

fun val :: "nat list \<Rightarrow> nat" where
  "val [] = 0"
| "val (b # bs) = b * 2 ^ length bs + val bs"

declare bit_count.simps [simp del] decimal_count.simps [simp del] bits.simps [simp del]

section \<open>DynamicArray and List\<close>

record 'a DynamicArray =
  capacity :: size_t
  capacityModifier :: size_t
  count :: size_t
  array :: "'a Array"

definition DynamicArray_INITIAL_CAPACITY :: size_t where
  "DynamicArray_INITIAL_CAPACITY = 200"

text \<open>\<open>DynamicArray()\<close>, which \<open>List()\<close> forwards to.\<close>

definition DynamicArray_default :: "(nat \<Rightarrow> 'a) \<Rightarrow> 'a DynamicArray" where
  "DynamicArray_default fresh =
     \<lparr>capacity = DynamicArray_INITIAL_CAPACITY, capacityModifier = DynamicArray_INITIAL_CAPACITY, count = 0,
      array = new_array fresh (unat DynamicArray_INITIAL_CAPACITY)\<rparr>"

text \<open>
  \<open>DynamicArray(capacity, capacityModifier)\<close>, which \<open>List(capacity, capacityModifier)\<close>
  forwards to.  The division traps when the modifier is zero; sum and product wrap; the
  array of the computed capacity is then requested from the free store.
\<close>

definition DynamicArray_new ::
  "nat \<Rightarrow> (nat \<Rightarrow> 'a) \<Rightarrow> size_t \<Rightarrow> size_t \<Rightarrow> error + 'a DynamicArray" where
  "DynamicArray_new store fresh cap modifier =
     (if modifier = 0 then Inl DivisionByZero
      else let capacity' = (cap div modifier + 1) * modifier in
        case Array_new store fresh (unat capacity') of
          Inl e \<Rightarrow> Inl e
        | Inr a \<Rightarrow>
            Inr \<lparr>capacity = capacity', capacityModifier = modifier, count = 0, array = a\<rparr>)"

section \<open>Node and LinkedList: nodes and their links\<close>

text \<open>
  Nodes live in an arena: the heap is the list of all nodes allocated so far, a
  \<open>Node<T>*\<close> is an index into it (\<open>nullptr\<close> is \<open>None\<close>) and \<open>new Node<T>(value)\<close>
  appends a node and returns its index.  The fields \<open>Previous\<close> and \<open>Next\<close> are the
  members \<open>previous\<close> and \<open>next\<close>; \<open>Count\<close>, \<open>Head\<close> and \<open>Tail\<close> of the list are the
  members \<open>count\<close>, \<open>head\<close> and \<open>tail\<close> (all named here after their accessors).
\<close>

type_synonym node_ref = "nat option"

record 'a Node =
  Previous :: node_ref
  Next :: node_ref
  isConstructed :: bool
  Data :: 'a

type_synonym 'a heap = "'a Node list"

record LinkedList =
  Count :: size_t
  Head :: node_ref
  Tail :: node_ref
  constructedNodes :: "nat list"

text \<open>\<open>LinkedList()\<close> and \<open>Node(const T &data)\<close>.\<close>

definition LinkedList_new :: LinkedList where
  "LinkedList_new = \<lparr>Count = 0, Head = None, Tail = None, constructedNodes = []\<rparr>"

definition Node_new :: "'a \<Rightarrow> 'a Node" where
  "Node_new v = \<lparr>Previous = None, Next = None, isConstructed = False, Data = v\<rparr>"

text \<open>
  The loop of \<open>Add(Node<T>* node, contiguously = true)\<close>; \<open>continue\<close> still runs
  \<open>node = node->next, count++\<close>.  The loop follows \<open>next\<close> until \<open>nullptr\<close> and need not
  end: no result is \<open>None\<close>.
\<close>

partial_function (option) Add_loop ::
  "'a heap \<Rightarrow> LinkedList \<Rightarrow> node_ref \<Rightarrow> (error + 'a heap \<times> LinkedList) option" where
  "Add_loop h l node =
     (case node of
        None \<Rightarrow> Some (Inr (h, l))
      | Some n \<Rightarrow>
          if \<not> n < length h then Some (Inl NullPointer)
          else if Count l = 0
          then Add_loop h (l\<lparr>Head := Some n, Tail := Some n, Count := Count l + 1\<rparr>)
                 (Next (h ! n))
          else
            (let h1 = (if Previous (h ! n) = None
                       then h[n := (h ! n)\<lparr>Previous := Tail l\<rparr>] else h)
             in case Tail l of
                  None \<Rightarrow> Some (Inl NullPointer)
                | Some t \<Rightarrow>
                    if \<not> t < length h1 then Some (Inl NullPointer)
                    else
                      (let h2 = h1[t := (h1 ! t)\<lparr>Next := Some n\<rparr>]
                       in Add_loop h2 (l\<lparr>Tail := Some n, Count := Count l + 1\<rparr>)
                            (Next (h2 ! n)))))"

declare Add_loop.simps [code]

text \<open>\<open>Add(T value)\<close>.\<close>

definition Add_value ::
  "'a heap \<Rightarrow> LinkedList \<Rightarrow> 'a \<Rightarrow> (error + 'a heap \<times> LinkedList) option" where
  "Add_value h l v =
     (let constructedNode = length h;
          h1 = h @ [(Node_new v)\<lparr>isConstructed := True\<rparr>]
      in case Add_loop h1 l (Some constructedNode) of
           None \<Rightarrow> None
         | Some (Inl e) \<Rightarrow> Some (Inl e)
         | Some (Inr (h2, l2)) \<Rightarrow>
             Some (Inr (h2, l2\<lparr>constructedNodes := constructedNodes l2 @ [constructedNode]\<rparr>)))"

text \<open>The \<open>while (currentNode)\<close> loop of \<open>Reverse\<close>.\<close>

partial_function (option) Reverse_loop ::
  "'a heap \<Rightarrow> node_ref \<Rightarrow> node_ref \<Rightarrow> (error + 'a heap) option" where
  "Reverse_loop h previousNode currentNode =
     (case currentNode of
        None \<Rightarrow> Some (Inr h)
      | Some c \<Rightarrow>
          if \<not> c < length h then Some (Inl NullPointer)
          else Reverse_loop (h[c := (h ! c)\<lparr>Next := previousNode\<rparr>]) (Some c) (Next (h ! c)))"

declare Reverse_loop.simps [code]

text \<open>The assignment \<open>node->previous = p\<close>.\<close>

definition set_Previous :: "'a heap \<Rightarrow> node_ref \<Rightarrow> node_ref \<Rightarrow> error + 'a heap" where
  "set_Previous h node p =
     (case node of
        None \<Rightarrow> Inl NullPointer
      | Some n \<Rightarrow>
          if n < length h then Inr (h[n := (h ! n)\<lparr>Previous := p\<rparr>]) else Inl NullPointer)"

text \<open>
  \<open>Reverse()\<close>: \<open>secondNode\<close> is read before the loop; after the loop \<open>head\<close> and
  \<open>tail\<close> are swapped and two \<open>previous\<close> members are assigned.
\<close>

definition Reverse :: "'a heap \<Rightarrow> LinkedList \<Rightarrow> (error + 'a heap \<times> LinkedList) option" where
  "Reverse h l =
     (if Count l = 0 then Some (Inr (h, l))
      else case Head l of
        None \<Rightarrow> Some (Inl NullPointer)
      | Some first \<Rightarrow>
          if \<not> first < length h then Some (Inl NullPointer)
          else
            (let secondNode = Next (h ! first)
             in case Reverse_loop h None (Head l) of
                  None \<Rightarrow> None
                | Some (Inl e) \<Rightarrow> Some (Inl e)
                | Some (Inr h1) \<Rightarrow>
                    (let l1 = l\<lparr>Head := Tail l, Tail := Head l\<rparr>
                     in case set_Previous h1 (Head l1) None of
                          Inl e \<Rightarrow> Some (Inl e)
                        | Inr h2 \<Rightarrow>
                            (case set_Previous h2 (Tail l1) secondNode of
                               Inl e \<Rightarrow> Some (Inl e)
                             | Inr h3 \<Rightarrow> Some (Inr (h3, l1))))))"

text \<open>
  The nodes met from a node by following \<open>next\<close>, and by following \<open>previous\<close>, at most
  \<open>k\<close> of them.
\<close>

fun along_Next :: "nat \<Rightarrow> 'a heap \<Rightarrow> node_ref \<Rightarrow> nat list" where
  "along_Next 0 h node = []"
| "along_Next (Suc k) h None = []"
| "along_Next (Suc k) h (Some n) =
     (if n < length h then n # along_Next k h (Next (h ! n)) else [])"

fun along_Previous :: "nat \<Rightarrow> 'a heap \<Rightarrow> node_ref \<Rightarrow> nat list" where
  "along_Previous 0 h node = []"
| "along_Previous (Suc k) h None = []"
| "along_Previous (Suc k) h (Some n) =
     (if n < length h then n # along_Previous k h (Previous (h ! n)) else [])"

section \<open>The bucket chain as the table uses it\<close>

text \<open>
  For the table a \<open>LinkedList<T>\<close> is a \<open>chain\<close>: the sequence of the \<open>Data\<close> of its
  nodes from \<open>head\<close> along \<open>next\<close>; \<open>Count()\<close> is its length, and a \<open>Node<T>*\<close> into
  the chain is the position of the node (\<open>nullptr\<close> is \<open>None\<close>).  Every chain of the table is made
  by \<open>LinkedList()\<close>, so \<open>ImprovableSearch\<close> is false and \<open>EveryNode\<close> never swaps.
\<close>

type_synonym 'a chain = "'a list"

definition LinkedList_empty :: "'a chain" where
  "LinkedList_empty = []"

text \<open>\<open>Add(T value)\<close>: a new node linked after the tail.\<close>

definition LinkedList_Add :: "'a chain \<Rightarrow> 'a \<Rightarrow> 'a chain" where
  "LinkedList_Add l v = l @ [v]"

text \<open>
  The loop of \<open>EveryNode(predicate, true, amountTaken)\<close>: \<open>room\<close> is what is left of
  \<open>nodes.Length() - nodeCount\<close>, \<open>i\<close> the position of \<open>currentNode\<close>, the list what
  remains of the chain from \<open>currentNode\<close> on.
\<close>

fun EveryNode_loop :: "('a \<Rightarrow> bool) \<Rightarrow> nat \<Rightarrow> nat \<Rightarrow> 'a list \<Rightarrow> nat list" where
  "EveryNode_loop predicate room i [] = []"
| "EveryNode_loop predicate room i (x # xs) =
     (if room = 0 then []
      else if \<not> predicate x then EveryNode_loop predicate room (Suc i) xs
      else i # EveryNode_loop predicate (room - 1) (Suc i) xs)"

definition EveryNode :: "'a chain \<Rightarrow> ('a \<Rightarrow> bool) \<Rightarrow> nat \<Rightarrow> nat list" where
  "EveryNode l predicate amountTaken =
     EveryNode_loop predicate (if amountTaken = 0 then length l else amountTaken) 0 l"

definition FirstNode :: "'a chain \<Rightarrow> ('a \<Rightarrow> bool) \<Rightarrow> node_ref" where
  "FirstNode l predicate =
     (let nodes = EveryNode l predicate 1 in if length nodes \<noteq> 0 then Some (nodes ! 0) else None)"

definition FindFirstNode :: "'a chain \<Rightarrow> 'a \<Rightarrow> node_ref" where
  "FindFirstNode l v = FirstNode l (\<lambda>d. d = v)"

text \<open>
  \<open>IndexOf\<close> counts in an \<open>int\<close> from the head until it meets the node, \<open>-1\<close> if it
  does not.  The caller stores the result in a \<open>size_t\<close>, which sign-extends it.
\<close>

definition IndexOf :: "'a chain \<Rightarrow> nat \<Rightarrow> 32 word" where
  "IndexOf l node = (if node < length l then word_of_nat node else - 1)"

text \<open>\<open>NodeAt(index)\<close> with its \<open>ValidateBoundaries\<close>.\<close>

definition NodeAt :: "'a chain \<Rightarrow> size_t \<Rightarrow> error + nat" where
  "NodeAt l index = (if unat index < length l then Inr (unat index) else Inl OutOfRange)"

section \<open>HashTable\<close>

text \<open>
  \<open>Set\<close> and \<open>Get\<close> take the key by reference and use both its address and its value:
  a key argument is the pair of the two.  \<open>sizeof(key)\<close> is fixed by \<open>TKey\<close> and is a
  parameter of the operations.  The \<open>float\<close> threshold is the rational number it denotes
  (0.75 is exact in binary).
\<close>

record 'k lvalue =
  address :: long
  content :: 'k

text \<open>The member \<open>values\<close> is the field \<open>values'\<close>.\<close>

record ('k, 'v) HashTable =
  keys :: "'k chain DynamicArray"
  values' :: "'v chain DynamicArray"
  threshold :: rat
  HashingAlgorithm :: "long \<Rightarrow> long \<Rightarrow> long"
  hashingSeed :: long
  hashedPairCount :: long

definition INITIAL_THRESHOLD :: rat where
  "INITIAL_THRESHOLD = 3 / 4"

definition HashTable_INITIAL_CAPACITY :: size_t where
  "HashTable_INITIAL_CAPACITY = 500"

text \<open>\<open>HashTable()\<close>.\<close>

definition HashTable_default :: "('k, 'v) HashTable" where
  "HashTable_default =
     \<lparr>keys = DynamicArray_default (\<lambda>i. LinkedList_empty),
      values' = DynamicArray_default (\<lambda>i. LinkedList_empty),
      threshold = INITIAL_THRESHOLD,
      HashingAlgorithm = MurmurHashingAlgorithm, hashingSeed = 0, hashedPairCount = 0\<rparr>"

definition ValidateThreshold :: "rat \<Rightarrow> error + unit" where
  "ValidateThreshold th = (if 0 < th \<and> th \<le> 1 then Inr () else Inl InvalidThreshold)"

text \<open>
  \<open>HashTable(capacity, threshold, capacityModifier, hashingAlgorithm, hashingSeed)\<close>; the
  defaults of the last four parameters are \<open>INITIAL_THRESHOLD\<close>,
  \<open>HashTable::INITIAL_CAPACITY\<close>, \<open>MurmurHashingAlgorithm\<close> and 0.  Both bucket arrays
  are requested from the free store \<open>store\<close>.
\<close>

definition HashTable_new ::
  "nat \<Rightarrow> size_t \<Rightarrow> rat \<Rightarrow> size_t \<Rightarrow> (long \<Rightarrow> long \<Rightarrow> long) \<Rightarrow> long \<Rightarrow>
     error + ('k, 'v) HashTable" where
  "HashTable_new store cap th modifier hashingAlgorithm seed =
     (case ValidateThreshold th of Inl e \<Rightarrow> Inl e | Inr _ \<Rightarrow>
      case DynamicArray_new store (\<lambda>i. LinkedList_empty) cap modifier of
        Inl e \<Rightarrow> Inl e | Inr ks \<Rightarrow>
      case DynamicArray_new store (\<lambda>i. LinkedList_empty) cap modifier of
        Inl e \<Rightarrow> Inl e | Inr vs \<Rightarrow>
        Inr \<lparr>keys = ks, values' = vs, threshold = th,
             HashingAlgorithm = hashingAlgorithm, hashingSeed = seed, hashedPairCount = 0\<rparr>)"

definition Capacity :: "('k, 'v) HashTable \<Rightarrow> size_t" where
  "Capacity t = capacity (keys t)"

definition CapacityModifier :: "('k, 'v) HashTable \<Rightarrow> size_t" where
  "CapacityModifier t = capacityModifier (keys t)"

definition Threshold :: "('k, 'v) HashTable \<Rightarrow> rat" where
  "Threshold t = threshold t"

text \<open>
  The first three lines of \<open>Set\<close> and of \<open>Get\<close>: the raw value is twice the address
  of the key plus its size, and the remainder is unsigned.
\<close>

definition bucket_index :: "size_t \<Rightarrow> ('k, 'v) HashTable \<Rightarrow> 'k lvalue \<Rightarrow> error + nat" where
  "bucket_index sizeof_key t key =
     (let rawHashing = address key + address key + sizeof_key;
          hashingValue = HashingAlgorithm t rawHashing (hashingSeed t)
      in if capacity (values' t) = 0 then Inl DivisionByZero
         else Inr (unat (hashingValue mod capacity (values' t))))"

definition Set ::
  "size_t \<Rightarrow> ('k, 'v) HashTable \<Rightarrow> 'k lvalue \<Rightarrow> 'v \<Rightarrow> error + ('k, 'v) HashTable" where
  "Set sizeof_key t key v =
     (case bucket_index sizeof_key t key of Inl e \<Rightarrow> Inl e | Inr index \<Rightarrow>
      case Array_at (array (keys t)) index of Inl e \<Rightarrow> Inl e | Inr keyPocket \<Rightarrow>
      case Array_at (array (values' t)) index of Inl e \<Rightarrow> Inl e | Inr valuePocket \<Rightarrow>
      (case FindFirstNode keyPocket (content key) of
         None \<Rightarrow>
           Inr (t\<lparr>keys := (keys t)\<lparr>array :=
                        (array (keys t))[index := LinkedList_Add keyPocket (content key)]\<rparr>,
                  values' := (values' t)\<lparr>array :=
                        (array (values' t))[index := LinkedList_Add valuePocket v]\<rparr>,
                  hashedPairCount := hashedPairCount t + 1\<rparr>)
       | Some keyNode \<Rightarrow>
           (let keyNodeIndex = (scast (IndexOf keyPocket keyNode) :: size_t) in
            case NodeAt valuePocket keyNodeIndex of Inl e \<Rightarrow> Inl e
            | Inr valueNode \<Rightarrow>
                Inr (t\<lparr>values' := (values' t)\<lparr>array :=
                        (array (values' t))[index := valuePocket[valueNode := v]]\<rparr>\<rparr>))))"

definition Get :: "size_t \<Rightarrow> ('k, 'v) HashTable \<Rightarrow> 'k lvalue \<Rightarrow> error + 'v" where
  "Get sizeof_key t key =
     (case bucket_index sizeof_key t key of Inl e \<Rightarrow> Inl e | Inr index \<Rightarrow>
      case Array_at (array (keys t)) index of Inl e \<Rightarrow> Inl e | Inr keyPocket \<Rightarrow>
      case Array_at (array (values' t)) index of Inl e \<Rightarrow> Inl e | Inr valuePocket \<Rightarrow>
      (case FindFirstNode keyPocket (content key) of
         Some keyNode \<Rightarrow>
           (let keyNodeIndex = (scast (IndexOf keyPocket keyNode) :: size_t) in
            case NodeAt valuePocket keyNodeIndex of Inl e \<Rightarrow> Inl e
            | Inr valueNode \<Rightarrow> Inr (valuePocket ! valueNode))
       | None \<Rightarrow> Inl KeyNotFound))"

text \<open>
  \<open>Has\<close>: \<open>catch (...)\<close> turns every exception of \<open>Get\<close> into \<open>false\<close>; a division
  trap is not an exception and is not caught.
\<close>

definition Has :: "size_t \<Rightarrow> ('k, 'v) HashTable \<Rightarrow> 'k lvalue \<Rightarrow> error + bool" where
  "Has sizeof_key t key =
     (case Get sizeof_key t key of
        Inr _ \<Rightarrow> Inr True
      | Inl DivisionByZero \<Rightarrow> Inl DivisionByZero
      | Inl _ \<Rightarrow> Inr False)"

text \<open>Successive \<open>Set\<close> calls; the first failure ends the run.\<close>

fun Sets ::
  "size_t \<Rightarrow> ('k, 'v) HashTable \<Rightarrow> ('k lvalue \<times> 'v) list \<Rightarrow> error + ('k, 'v) HashTable" where
  "Sets sizeof_key t [] = Inr t"
| "Sets sizeof_key t ((key, v) # calls) =
     (case Set sizeof_key t key v of Inl e \<Rightarrow> Inl e | Inr t' \<Rightarrow> Sets sizeof_key t' calls)"

section \<open>Notions used to state the properties of the table\<close>

text \<open>The tables a program can hold: those a constructor returned.\<close>

inductive constructed :: "('k, 'v) HashTable \<Rightarrow> bool" where
  by_default: "constructed HashTable_default"
| by_parameters: "HashTable_new store cap th modifier h seed = Inr t \<Longrightarrow> constructed t"

text \<open>The bucket that \<open>Set\<close> and \<open>Get\<close> select for a key argument.\<close>

definition bucket_of :: "size_t \<Rightarrow> ('k, 'v) HashTable \<Rightarrow> 'k lvalue \<Rightarrow> nat" where
  "bucket_of sizeof_key t key =
     unat (HashingAlgorithm t (address key + address key + sizeof_key) (hashingSeed t)
           mod capacity (values' t))"


text \<open>The position of the first node of a chain that holds \<open>v\<close>.\<close>

fun first_index :: "'a list \<Rightarrow> 'a \<Rightarrow> nat" where
  "first_index [] v = 0"
| "first_index (x # xs) v = (if x = v then 0 else Suc (first_index xs v))"

text \<open>
  The state of the two bucket arrays that the operations rely on: equally many buckets
  in both arrays, at least one, and in every bucket a key chain and a value chain of
  one length, at most \<open>n\<close>, without a repeated key.
\<close>

definition chains_ok :: "nat \<Rightarrow> ('k, 'v) HashTable \<Rightarrow> bool" where
  "chains_ok n t \<longleftrightarrow>
     capacity (keys t) = capacity (values' t) \<and> capacity (values' t) \<noteq> 0
     \<and> length (array (keys t)) = unat (capacity (keys t))
     \<and> length (array (values' t)) = unat (capacity (values' t))
     \<and> (\<forall>i < unat (capacity (keys t)).
           length (array (keys t) ! i) = length (array (values' t) ! i)
           \<and> length (array (keys t) ! i) \<le> n
           \<and> distinct (array (keys t) ! i))"

text \<open>What bucket \<open>i\<close> of the table associates with the key value \<open>k\<close>.\<close>

definition assoc :: "('k, 'v) HashTable \<Rightarrow> nat \<Rightarrow> 'k \<Rightarrow> 'v option" where
  "assoc t i k =
     (if k \<in> set (array (keys t) ! i)
      then Some (array (values' t) ! i ! first_index (array (keys t) ! i) k) else None)"

text \<open>The table that a successful \<open>Set\<close> returns, written out.\<close>

definition Set_result :: "size_t \<Rightarrow> ('k, 'v) HashTable \<Rightarrow> 'k lvalue \<Rightarrow> 'v \<Rightarrow> ('k, 'v) HashTable" where
  "Set_result sz t key v =
     (let i = bucket_of sz t key; ks = array (keys t) ! i; vs = array (values' t) ! i in
      if content key \<in> set ks
      then t\<lparr>values' := (values' t)\<lparr>array :=
               (array (values' t))[i := vs[first_index ks (content key) := v]]\<rparr>\<rparr>
      else t\<lparr>keys := (keys t)\<lparr>array := (array (keys t))[i := ks @ [content key]]\<rparr>,
             values' := (values' t)\<lparr>array := (array (values' t))[i := vs @ [v]]\<rparr>,
             hashedPairCount := hashedPairCount t + 1\<rparr>)"

section \<open>Array: resizing\<close>

lemma length_new_array: "length (new_array fresh n) = n"
  by (simp add: new_array_def)

lemma nth_new_array: "i < n \<Longrightarrow> new_array fresh n ! i = fresh i"
  by (simp add: new_array_def)

lemma Resize_fold:
  "k \<le> min (length a) n \<Longrightarrow>
   fold (\<lambda>i r. r[i := a ! i]) [0..<k] (map fresh [0..<n]) = take k a @ map fresh [k..<n]"
proof (induction k)
  case 0
  then show ?case by simp
next
  case (Suc k)
  then have k: "k < length a" "k < n" by simp_all
  have "(take k a @ map fresh [k..<n])[k := a ! k]
        = take k a @ (map fresh [k..<n])[0 := a ! k]"
    using k by (simp add: list_update_append)
  also have "(map fresh [k..<n])[0 := a ! k] = a ! k # map fresh [Suc k..<n]"
    using k by (simp add: upt_conv_Cons)
  finally show ?case
    using Suc k by (simp add: take_Suc_conv_app_nth)
qed

lemma Resize_eq:
  "Resize store fresh a n =
     (if n \<le> store then Inr (take n a @ map fresh [length a..<n]) else Inl BadAlloc)"
proof (cases "length a \<le> n")
  case True
  then show ?thesis
    using Resize_fold [of "length a" a n fresh]
    by (simp add: Resize_def Array_new_def new_array_def min_def)
next
  case False
  then show ?thesis
    using Resize_fold [of n a n fresh]
    by (simp add: Resize_def Array_new_def new_array_def min_def)
qed

lemma Resize_with_eq: "Resize_with store fresh a n d = Resize store fresh a n"
  by (simp add: Resize_with_def split: sum.split)

lemma Resize_refused: "store < n \<Longrightarrow> Resize store fresh a n = Inl BadAlloc"
  by (simp add: Resize_eq)

lemma Resize_length: "Resize store fresh a n = Inr r \<Longrightarrow> length r = n"
  by (auto simp: Resize_eq split: if_splits)

lemma Resize_prefix:
  "Resize store fresh a n = Inr r \<Longrightarrow> i < min (length a) n \<Longrightarrow> r ! i = a ! i"
  by (auto simp: Resize_eq nth_append split: if_splits)

lemma Resize_trailing:
  "Resize store fresh a n = Inr r \<Longrightarrow> length a \<le> i \<Longrightarrow> i < n \<Longrightarrow> r ! i = fresh i"
  by (auto simp: Resize_eq nth_append split: if_splits)

text \<open>
  Claim C6.  \<open>Resize(length, defaultValue)\<close> returns what \<open>Resize(length)\<close> returns:
  the length and the copied prefix are as claimed, but the guard \<open>length <= length\<close>
  always leaves before the filling loop, so no trailing slot receives the default.
  Resizing the two-element array \<open>[1, 2]\<close> to length 4 with default 9 leaves the two
  new slots as \<open>new T[4]\<close> left them (or throws, when the four slots are not granted).
\<close>

theorem Resize_with_default_unused:
  "Resize_with store fresh [1, 2] 4 (9 :: int) =
     (if 4 \<le> store then Inr [1, 2, fresh 2, fresh 3] else Inl BadAlloc)
   \<and> (\<forall>a n d. Resize_with store fresh a n (d :: int) = Resize store fresh a n)"
proof -
  have "map fresh [Suc (Suc 0)..<4] = [fresh 2, fresh 3]"
    by (simp add: upt_conv_Cons eval_nat_numeral)
  then show ?thesis
    by (simp add: Resize_with_eq Resize_eq)
qed

section \<open>Construction: capacities and defaults\<close>

lemma unat_actual_capacity:
  fixes c m :: size_t
  assumes m: "m \<noteq> 0" and fit: "(unat c div unat m + 1) * unat m < 2 ^ 64"
  shows "unat ((c div m + 1) * m) = (unat c div unat m + 1) * unat m"
proof -
  have mpos: "0 < unat m"
    using m by (simp add: unat_gt_0)
  have "unat c div unat m + 1 \<le> (unat c div unat m + 1) * unat m"
    using mpos by (cases "unat m") simp_all
  then have q: "unat c div unat m + 1 < 2 ^ 64"
    using fit by linarith
  have "unat (c div m + 1) = unat c div unat m + 1"
    using q by (simp add: unat_word_ariths unat_div)
  then show ?thesis
    using fit by (simp add: unat_word_ariths)
qed

lemma actual_capacity_greater:
  fixes c m :: nat
  assumes "0 < m"
  shows "c < (c div m + 1) * m"
proof -
  have "c mod m < m"
    using assms by simp
  moreover have "c div m * m + c mod m = c"
    by simp
  ultimately have "c < c div m * m + m"
    by linarith
  then show ?thesis
    by simp
qed

text \<open>
  Claim C8, as stated, fails: the table made by \<open>HashTable()\<close> does not have 500
  buckets.
\<close>

theorem default_bucket_count_counterexample:
  "Capacity (HashTable_default :: (int, int) HashTable) \<noteq> 500"
  by (simp add: Capacity_def HashTable_default_def DynamicArray_default_def
      DynamicArray_INITIAL_CAPACITY_def)

text \<open>
  Claim C8, amended.  \<open>HashTable()\<close> builds both bucket arrays with \<open>List()\<close>, whose
  capacity and capacity modifier are both \<open>DynamicArray::INITIAL_CAPACITY\<close>: the table
  has 200 buckets, a growth increment of 200 and the threshold 0.75.
\<close>

theorem default_table_parameters:
  "Capacity HashTable_default = 200 \<and> CapacityModifier HashTable_default = 200
   \<and> Threshold HashTable_default = 3 / 4"
  by (simp add: Capacity_def CapacityModifier_def Threshold_def HashTable_default_def
      DynamicArray_default_def DynamicArray_INITIAL_CAPACITY_def INITIAL_THRESHOLD_def)

text \<open>
  The constant 500 of \<open>HashTable::INITIAL_CAPACITY\<close> is the default of the parameter
  \<open>capacityModifier\<close> of the other constructor: with a requested capacity of 4 and that
  default the table has 500 buckets and grows by 500.
\<close>

lemma explicit_constructor_default_modifier:
  "\<exists>t. HashTable_new (500 + k) 4 INITIAL_THRESHOLD HashTable_INITIAL_CAPACITY
           MurmurHashingAlgorithm 0 = Inr t
       \<and> Capacity t = 500 \<and> CapacityModifier t = 500"
  by (simp add: HashTable_new_def ValidateThreshold_def DynamicArray_new_def Array_new_def
      Capacity_def CapacityModifier_def INITIAL_THRESHOLD_def HashTable_INITIAL_CAPACITY_def)

lemma DynamicArray_new_refused:
  assumes "modifier \<noteq> 0" and "store < unat ((cap div modifier + 1) * modifier)"
  shows "DynamicArray_new store fresh cap modifier = Inl BadAlloc"
  using assms by (simp add: DynamicArray_new_def Array_new_def Let_def)

lemma HashTable_new_refused:
  assumes "0 < th" and "th \<le> 1"
    and "modifier \<noteq> 0" and "store < unat ((cap div modifier + 1) * modifier)"
  shows "HashTable_new store cap th modifier h seed = Inl BadAlloc"
  using assms by (simp add: HashTable_new_def ValidateThreshold_def DynamicArray_new_refused)

text \<open>
  Claim C10, as stated, fails in three ways.  At the end of the \<open>size_t\<close> range:
  requesting the capacity \<open>2\<^sup>6\<^sup>4 - 1\<close> with increment 1 wraps to a capacity of 0, which is
  not greater than the request.  An increment of 0 divides by zero, so nothing is
  allocated.  And a capacity that the free store does not grant (here \<open>2\<^sup>6\<^sup>2 + 1\<close>
  elements from a store that grants \<open>2\<^sup>6\<^sup>2\<close>) makes the constructor throw.
\<close>

theorem actual_capacity_counterexample:
  "DynamicArray_new (2 ^ 62) id 0xFFFFFFFFFFFFFFFF 1
     = Inr \<lparr>capacity = 0, capacityModifier = 1, count = 0, array = []\<rparr>
   \<and> \<not> (0xFFFFFFFFFFFFFFFF :: size_t) < 0
   \<and> DynamicArray_new (2 ^ 62) id 400 0 = Inl DivisionByZero
   \<and> DynamicArray_new (2 ^ 62) id (2 ^ 62) 1 = Inl BadAlloc"
  by (simp add: DynamicArray_new_def Array_new_def new_array_def)

text \<open>
  Claim C10, amended.  For every requested capacity \<open>c\<close> and growth increment \<open>m \<ge> 1\<close>
  such that \<open>(\<lfloor>c / m\<rfloor> + 1) * m\<close> is below \<open>2\<^sup>6\<^sup>4\<close> and the free store grants an array
  of that many elements, the growable-array constructor allocates exactly that capacity;
  it is strictly greater than \<open>c\<close>, a full increment more than \<open>c\<close> when \<open>m\<close> divides
  \<open>c\<close>; and the table built with \<open>c\<close> and \<open>m\<close> reduces every bucket index modulo this
  actual capacity.
\<close>

theorem actual_capacity:
  fixes cap modifier :: size_t
  assumes m: "modifier \<noteq> 0"
    and fit: "(unat cap div unat modifier + 1) * unat modifier < 2 ^ 64"
    and granted: "(unat cap div unat modifier + 1) * unat modifier \<le> store"
    and th: "0 < th" "th \<le> 1"
  shows "\<exists>d t. DynamicArray_new store fresh cap modifier = Inr d
           \<and> unat (capacity d) = (unat cap div unat modifier + 1) * unat modifier
           \<and> length (array d) = unat (capacity d)
           \<and> cap < capacity d
           \<and> (unat modifier dvd unat cap \<longrightarrow> unat (capacity d) = unat cap + unat modifier)
           \<and> HashTable_new store cap th modifier h seed = Inr t
           \<and> Capacity t = capacity d
           \<and> (\<forall>key. bucket_index sz t key =
                  Inr (unat (h (address key + address key + sz) seed)
                       mod ((unat cap div unat modifier + 1) * unat modifier)))"
proof -
  define c' where "c' = (cap div modifier + 1) * modifier"
  have u: "unat c' = (unat cap div unat modifier + 1) * unat modifier"
    unfolding c'_def using m fit by (rule unat_actual_capacity)
  have room: "unat c' \<le> store"
    using u granted by simp
  have mpos: "0 < unat modifier"
    using m by (simp add: unat_gt_0)
  have gt: "cap < c'"
    using actual_capacity_greater [OF mpos, of "unat cap"] u by (simp add: word_less_nat_alt)
  then have nz: "c' \<noteq> 0"
    by (auto simp: word_less_nat_alt)
  have mult: "unat modifier dvd unat cap \<longrightarrow> unat c' = unat cap + unat modifier"
    using u by (auto simp: add_mult_distrib)
  let ?d = "\<lparr>capacity = c', capacityModifier = modifier, count = 0,
             array = new_array fresh (unat c')\<rparr>"
  let ?b = "\<lparr>capacity = c', capacityModifier = modifier, count = 0,
             array = new_array (\<lambda>i. LinkedList_empty) (unat c')\<rparr>"
  let ?t = "\<lparr>keys = ?b, values' = ?b, threshold = th, HashingAlgorithm = h,
             hashingSeed = seed, hashedPairCount = 0\<rparr>"
  have d: "DynamicArray_new store fresh cap modifier = Inr ?d"
    using m room by (simp add: DynamicArray_new_def Array_new_def c'_def Let_def)
  have t: "HashTable_new store cap th modifier h seed = Inr ?t"
    using m th room
    by (simp add: HashTable_new_def ValidateThreshold_def DynamicArray_new_def Array_new_def
        c'_def Let_def)
  have b: "bucket_index sz ?t key =
             Inr (unat (h (address key + address key + sz) seed)
                  mod ((unat cap div unat modifier + 1) * unat modifier))" for key
    using nz u by (simp add: bucket_index_def Let_def unat_mod)
  have "unat (capacity ?d) = (unat cap div unat modifier + 1) * unat modifier"
    "length (array ?d) = unat (capacity ?d)" "cap < capacity ?d" "Capacity ?t = capacity ?d"
    "unat modifier dvd unat cap \<longrightarrow> unat (capacity ?d) = unat cap + unat modifier"
    using u gt mult by (simp_all add: new_array_def Capacity_def)
  with d t b show ?thesis
    by blast
qed

theorem actual_capacity_witness:
  "(200 :: size_t) \<noteq> 0
   \<and> (unat (400 :: size_t) div unat (200 :: size_t) + 1) * unat (200 :: size_t) < 2 ^ 64
   \<and> (unat (400 :: size_t) div unat (200 :: size_t) + 1) * unat (200 :: size_t) \<le> 600
   \<and> (0 :: rat) < 3 / 4 \<and> (3 / 4 :: rat) \<le> 1
   \<and> (\<exists>(d :: nat DynamicArray) (t :: (int, int) HashTable).
         DynamicArray_new 600 id 400 200 = Inr d
         \<and> unat (capacity d) = 600 \<and> length (array d) = 600 \<and> 400 < capacity d
         \<and> HashTable_new 600 400 (3 / 4) 200 MurmurHashingAlgorithm 0 = Inr t
         \<and> Capacity t = capacity d)"
proof -
  have h: "(200 :: size_t) \<noteq> 0"
    "(unat (400 :: size_t) div unat (200 :: size_t) + 1) * unat (200 :: size_t) < 2 ^ 64"
    "(unat (400 :: size_t) div unat (200 :: size_t) + 1) * unat (200 :: size_t) \<le> 600"
    "(0 :: rat) < 3 / 4" "(3 / 4 :: rat) \<le> 1"
    by simp_all
  from actual_capacity [OF h, of id MurmurHashingAlgorithm 0 4]
  obtain d :: "nat DynamicArray" and t :: "(int, int) HashTable" where
    "DynamicArray_new 600 id 400 200 = Inr d"
    "unat (capacity d) = (unat (400 :: size_t) div unat (200 :: size_t) + 1) * unat (200 :: size_t)"
    "length (array d) = unat (capacity d)" "400 < capacity d"
    "HashTable_new 600 400 (3 / 4) 200 MurmurHashingAlgorithm 0 = Inr t" "Capacity t = capacity d"
    by blast
  then show ?thesis
    using h by auto
qed

section \<open>The bucket chain: finding a key\<close>

lemma EveryNode_loop_no_room: "EveryNode_loop P 0 i xs = []"
  by (cases xs) simp_all

lemma EveryNode_loop_first:
  "EveryNode_loop (\<lambda>d. d = v) (Suc 0) i xs =
     (if v \<in> set xs then [i + first_index xs v] else [])"
  by (induction xs arbitrary: i) (auto simp: EveryNode_loop_no_room)

lemma FindFirstNode_eq:
  "FindFirstNode l v = (if v \<in> set l then Some (first_index l v) else None)"
  by (simp add: FindFirstNode_def FirstNode_def EveryNode_def EveryNode_loop_first)

lemma first_index_less: "v \<in> set l \<Longrightarrow> first_index l v < length l"
  by (induction l) auto

lemma first_index_nth: "v \<in> set l \<Longrightarrow> l ! first_index l v = v"
  by (induction l) auto


lemma first_index_append: "v \<in> set l \<Longrightarrow> first_index (l @ l') v = first_index l v"
  by (induction l) auto

lemma first_index_snoc: "v \<notin> set l \<Longrightarrow> first_index (l @ [v]) v = length l"
  by (induction l) auto

lemma int_index_roundtrip:
  assumes "p < 2 ^ 31"
  shows "unat (scast (word_of_nat p :: 32 word) :: 64 word) = p"
proof -
  have "sint (word_of_nat p :: 32 word) = int p"
    using assms by (simp add: signed_of_nat signed_take_bit_int_eq_self)
  then have "(scast (word_of_nat p :: 32 word) :: 64 word) = word_of_nat p"
    by (simp add: scast_eq)
  moreover have "p < 2 ^ 64"
    using assms by (rule less_trans) simp
  ultimately show ?thesis
    by (simp add: unat_of_nat)
qed

lemma bucket_index_ok:
  "capacity (values' t) \<noteq> 0 \<Longrightarrow> bucket_index sz t key = Inr (bucket_of sz t key)"
  by (simp add: bucket_index_def bucket_of_def Let_def)

lemma bucket_of_less:
  "capacity (values' t) \<noteq> 0 \<Longrightarrow> bucket_of sz t key < unat (capacity (values' t))"
  by (simp add: bucket_of_def unat_mod unat_gt_0)

lemma chains_ok_bucket:
  assumes "chains_ok n t" and "i < unat (capacity (values' t))"
  shows "i < length (array (keys t))" and "i < length (array (values' t))"
    and "length (array (keys t) ! i) = length (array (values' t) ! i)"
    and "length (array (keys t) ! i) \<le> n" and "distinct (array (keys t) ! i)"
  using assms unfolding chains_ok_def by auto

lemma Set_succeeds:
  assumes ok: "chains_ok n t" and n: "n < 2 ^ 31"
  shows "Set sz t key v = Inr (Set_result sz t key v)"
proof -
  let ?i = "bucket_of sz t key"
  let ?ks = "array (keys t) ! ?i"
  let ?vs = "array (values' t) ! ?i"
  have cap: "capacity (values' t) \<noteq> 0" and i: "?i < unat (capacity (values' t))"
    using ok bucket_of_less [of t sz key] by (simp_all add: chains_ok_def)
  have lens: "?i < length (array (keys t))" "?i < length (array (values' t))"
    "length ?ks = length ?vs" "length ?ks \<le> n"
    using chains_ok_bucket [OF ok i] by simp_all
  show ?thesis
  proof (cases "content key \<in> set ?ks")
    case True
    let ?p = "first_index ?ks (content key)"
    have p: "?p < length ?ks"
      using True by (rule first_index_less)
    then have "?p < 2 ^ 31"
      using lens n by linarith
    then have "unat (scast (word_of_nat ?p :: 32 word) :: 64 word) = ?p"
      by (rule int_index_roundtrip)
    then show ?thesis
      using True p lens cap
      by (simp add: Set_def Set_result_def bucket_index_ok Array_at_def FindFirstNode_eq
          IndexOf_def NodeAt_def Let_def)
  next
    case False
    then show ?thesis
      using lens cap
      by (simp add: Set_def Set_result_def bucket_index_ok Array_at_def FindFirstNode_eq
          LinkedList_Add_def Let_def)
  qed
qed

lemma Get_eq:
  assumes ok: "chains_ok n t" and n: "n < 2 ^ 31"
  shows "Get sz t key =
           (case assoc t (bucket_of sz t key) (content key) of
              Some v \<Rightarrow> Inr v | None \<Rightarrow> Inl KeyNotFound)"
proof -
  let ?i = "bucket_of sz t key"
  let ?ks = "array (keys t) ! ?i"
  let ?vs = "array (values' t) ! ?i"
  have cap: "capacity (values' t) \<noteq> 0" and i: "?i < unat (capacity (values' t))"
    using ok bucket_of_less [of t sz key] by (simp_all add: chains_ok_def)
  have lens: "?i < length (array (keys t))" "?i < length (array (values' t))"
    "length ?ks = length ?vs" "length ?ks \<le> n"
    using chains_ok_bucket [OF ok i] by simp_all
  show ?thesis
  proof (cases "content key \<in> set ?ks")
    case True
    let ?p = "first_index ?ks (content key)"
    have p: "?p < length ?ks"
      using True by (rule first_index_less)
    then have "?p < 2 ^ 31"
      using lens n by linarith
    then have "unat (scast (word_of_nat ?p :: 32 word) :: 64 word) = ?p"
      by (rule int_index_roundtrip)
    then show ?thesis
      using True p lens cap
      by (simp add: Get_def assoc_def bucket_index_ok Array_at_def FindFirstNode_eq
          IndexOf_def NodeAt_def Let_def)
  next
    case False
    then show ?thesis
      using lens cap
      by (simp add: Get_def assoc_def bucket_index_ok Array_at_def FindFirstNode_eq Let_def)
  qed
qed

section \<open>What a \<open>Set\<close> call does to the table\<close>

lemma Set_result_parameters:
  "capacity (keys (Set_result sz t key v)) = capacity (keys t)"
  "capacity (values' (Set_result sz t key v)) = capacity (values' t)"
  "capacityModifier (keys (Set_result sz t key v)) = capacityModifier (keys t)"
  "HashingAlgorithm (Set_result sz t key v) = HashingAlgorithm t"
  "hashingSeed (Set_result sz t key v) = hashingSeed t"
  "threshold (Set_result sz t key v) = threshold t"
  by (simp_all add: Set_result_def Let_def)

lemma Set_result_lengths:
  "length (array (keys (Set_result sz t key v))) = length (array (keys t))"
  "length (array (values' (Set_result sz t key v))) = length (array (values' t))"
  by (simp_all add: Set_result_def Let_def)

lemma bucket_of_Set_result: "bucket_of sz (Set_result sz' t key v) = bucket_of sz t"
  by (rule ext) (simp add: bucket_of_def Set_result_parameters)

lemma Set_result_chains:
  assumes ok: "chains_ok n t"
  shows "chains_ok (Suc n) (Set_result sz t key v)"
proof -
  let ?b = "bucket_of sz t key"
  let ?t' = "Set_result sz t key v"
  have cap: "capacity (values' t) \<noteq> 0" "capacity (keys t) = capacity (values' t)"
    "length (array (keys t)) = unat (capacity (keys t))"
    "length (array (values' t)) = unat (capacity (values' t))"
    using ok by (simp_all add: chains_ok_def)
  have b: "?b < unat (capacity (values' t))"
    using cap by (simp add: bucket_of_less)
  have bucket: "length (array (keys ?t') ! i) = length (array (values' ?t') ! i)
        \<and> length (array (keys ?t') ! i) \<le> Suc n \<and> distinct (array (keys ?t') ! i)"
    if i: "i < unat (capacity (values' t))" for i
  proof (cases "i = ?b")
    case True
    then show ?thesis
      using chains_ok_bucket [OF ok b] by (simp add: Set_result_def Let_def)
  next
    case False
    then show ?thesis
      using chains_ok_bucket [OF ok i] by (simp add: Set_result_def Let_def)
  qed
  show ?thesis
    unfolding chains_ok_def Set_result_parameters Set_result_lengths
  proof (intro conjI allI impI)
    fix i
    assume "i < unat (capacity (keys t))"
    then have i: "i < unat (capacity (values' t))"
      using cap by simp
    show "length (array (keys ?t') ! i) = length (array (values' ?t') ! i)"
      and "length (array (keys ?t') ! i) \<le> Suc n" and "distinct (array (keys ?t') ! i)"
      using bucket [OF i] by blast+
  qed (use cap in simp_all)
qed

lemma Set_result_present:
  assumes "content key \<in> set (array (keys t) ! bucket_of sz t key)"
  shows "array (keys (Set_result sz t key v)) = array (keys t)"
    and "array (values' (Set_result sz t key v)) =
           (array (values' t))[bucket_of sz t key :=
              (array (values' t) ! bucket_of sz t key)
                [first_index (array (keys t) ! bucket_of sz t key) (content key) := v]]"
    and "hashedPairCount (Set_result sz t key v) = hashedPairCount t"
  using assms by (simp_all add: Set_result_def Let_def)

lemma Set_result_absent:
  assumes "content key \<notin> set (array (keys t) ! bucket_of sz t key)"
  shows "array (keys (Set_result sz t key v)) =
           (array (keys t))[bucket_of sz t key :=
              array (keys t) ! bucket_of sz t key @ [content key]]"
    and "array (values' (Set_result sz t key v)) =
           (array (values' t))[bucket_of sz t key :=
              array (values' t) ! bucket_of sz t key @ [v]]"
    and "hashedPairCount (Set_result sz t key v) = hashedPairCount t + 1"
  using assms by (simp_all add: Set_result_def Let_def)

lemma assoc_Set_result:
  assumes ok: "chains_ok n t" and i: "i < unat (capacity (values' t))"
  shows "assoc (Set_result sz t key v) i k =
           (if bucket_of sz t key = i \<and> content key = k then Some v else assoc t i k)"
proof -
  let ?b = "bucket_of sz t key"
  let ?ks = "array (keys t) ! ?b"
  let ?vs = "array (values' t) ! ?b"
  let ?c = "content key"
  have b: "?b < unat (capacity (values' t))"
    using ok by (simp add: bucket_of_less chains_ok_def)
  note B = chains_ok_bucket [OF ok b]
  show ?thesis
  proof (cases "content key \<in> set ?ks")
    case present: True
    note R = Set_result_present [OF present, of v]
    let ?p = "first_index ?ks ?c"
    have p: "?p < length ?vs"
      using present B first_index_less [of ?c ?ks] by simp
    show ?thesis
    proof (cases "i = ?b")
      case False
      then show ?thesis
        by (simp add: assoc_def R)
    next
      case True
      have same: "first_index ?ks k = ?p \<longleftrightarrow> k = ?c" if "k \<in> set ?ks"
      proof
        assume "first_index ?ks k = ?p"
        then have "?ks ! first_index ?ks k = ?ks ! ?p"
          by (rule arg_cong)
        then show "k = ?c"
          by (simp only: first_index_nth [OF that] first_index_nth [OF present])
      qed simp
      show ?thesis
      proof (cases "k \<in> set ?ks")
        case inside: True
        then show ?thesis
          using True B(2) p same [OF inside] by (simp add: assoc_def R) auto
      next
        case outside: False
        then have "k \<noteq> ?c"
          using present by auto
        then show ?thesis
          using True B(2) outside by (simp add: assoc_def R)
      qed
    qed
  next
    case absent: False
    note R = Set_result_absent [OF absent, of v]
    show ?thesis
    proof (cases "i = ?b")
      case False
      then show ?thesis
        by (simp add: assoc_def R)
    next
      case True
      show ?thesis
      proof (cases "k \<in> set ?ks")
        case inside: True
        then have "k \<noteq> ?c"
          using absent by auto
        moreover have "first_index (?ks @ [?c]) k = first_index ?ks k"
          using inside by (rule first_index_append)
        moreover have "first_index ?ks k < length ?vs"
          using inside B first_index_less [of k ?ks] by simp
        ultimately show ?thesis
          using True B(1,2) inside by (simp add: assoc_def R nth_append)
      next
        case outside: False
        show ?thesis
        proof (cases "k = ?c")
          case eq: True
          have "first_index (?ks @ [?c]) ?c = length ?vs"
            using absent B by (simp add: first_index_snoc)
          then show ?thesis
            using True B(1,2) eq by (simp add: assoc_def R)
        next
          case False
          then show ?thesis
            using True B(1,2) outside by (simp add: assoc_def R)
        qed
      qed
    qed
  qed
qed


lemma DynamicArray_new_Inr:
  "DynamicArray_new store fresh cap modifier = Inr d \<Longrightarrow>
     length (array d) = unat (capacity d) \<and> (\<forall>i < unat (capacity d). array d ! i = fresh i)
     \<and> capacity d = (cap div modifier + 1) * modifier \<and> capacityModifier d = modifier"
  by (auto simp: DynamicArray_new_def Array_new_def new_array_def Let_def split: if_splits)

lemma constructed_chains:
  assumes "constructed t" and "Capacity t \<noteq> 0"
  shows "chains_ok 0 t \<and> (\<forall>i < unat (Capacity t). array (keys t) ! i = [])"
  using assms
proof (cases rule: constructed.cases)
  case by_default
  then show ?thesis
    by (simp add: chains_ok_def HashTable_default_def DynamicArray_default_def new_array_def
        DynamicArray_INITIAL_CAPACITY_def LinkedList_empty_def Capacity_def)
next
  case (by_parameters store cap th modifier h seed)
  then obtain ks vs where
    ks: "DynamicArray_new store (\<lambda>i. LinkedList_empty :: 'a chain) cap modifier = Inr ks"
    and vs: "DynamicArray_new store (\<lambda>i. LinkedList_empty :: 'b chain) cap modifier = Inr vs"
    and t: "keys t = ks" "values' t = vs"
    by (auto simp: HashTable_new_def split: sum.splits)
  have "\<forall>i < unat (capacity ks). array ks ! i = []"
    using DynamicArray_new_Inr [OF ks] by (simp add: LinkedList_empty_def)
  moreover have "\<forall>i < unat (capacity vs). array vs ! i = []"
    using DynamicArray_new_Inr [OF vs] by (simp add: LinkedList_empty_def)
  ultimately show ?thesis
    using DynamicArray_new_Inr [OF ks] DynamicArray_new_Inr [OF vs] assms(2) t
    by (simp add: chains_ok_def Capacity_def)
qed

section \<open>Lockstep of the key chains and the value chains\<close>



section \<open>Looking up a key that is not there\<close>

text \<open>
  Claim C7, as stated, fails for a table without buckets.
  \<open>HashTable<int, int> t(18446744073709551615, 0.75F, 1)\<close> is constructed with a capacity
  that wraps to 0; on this empty table \<open>Get\<close> takes the remainder of the hash value by
  0, which is a trap and no exception, so neither \<open>Get\<close> fails with key-not-found nor
  \<open>Has\<close> returns false.
\<close>

theorem no_bucket_counterexample:
  "HashTable_new 1000 0xFFFFFFFFFFFFFFFF (3 / 4) 1 MurmurHashingAlgorithm 0
     = Inr (\<lparr>keys = \<lparr>capacity = 0, capacityModifier = 1, count = 0, array = []\<rparr>,
             values' = \<lparr>capacity = 0, capacityModifier = 1, count = 0, array = []\<rparr>,
             threshold = 3 / 4, HashingAlgorithm = MurmurHashingAlgorithm, hashingSeed = 0,
             hashedPairCount = 0\<rparr> :: (int, int) HashTable)
   \<and> Get 4 (\<lparr>keys = \<lparr>capacity = 0, capacityModifier = 1, count = 0, array = []\<rparr>,
             values' = \<lparr>capacity = 0, capacityModifier = 1, count = 0, array = []\<rparr>,
             threshold = 3 / 4, HashingAlgorithm = MurmurHashingAlgorithm, hashingSeed = 0,
             hashedPairCount = 0\<rparr> :: (int, int) HashTable)
        \<lparr>address = 0x7ffe12345670, content = 5\<rparr> = Inl DivisionByZero
   \<and> Has 4 (\<lparr>keys = \<lparr>capacity = 0, capacityModifier = 1, count = 0, array = []\<rparr>,
             values' = \<lparr>capacity = 0, capacityModifier = 1, count = 0, array = []\<rparr>,
             threshold = 3 / 4, HashingAlgorithm = MurmurHashingAlgorithm, hashingSeed = 0,
             hashedPairCount = 0\<rparr> :: (int, int) HashTable)
        \<lparr>address = 0x7ffe12345670, content = 5\<rparr> = Inl DivisionByZero"
  by (simp add: HashTable_new_def ValidateThreshold_def DynamicArray_new_def Array_new_def
      new_array_def Get_def Has_def bucket_index_def Let_def)

lemma Set_keeps_buckets:
  assumes "Set sz t key v = Inr t'"
  shows "capacity (keys t') = capacity (keys t) \<and> capacity (values' t') = capacity (values' t)
         \<and> length (array (keys t')) = length (array (keys t))
         \<and> length (array (values' t')) = length (array (values' t))"
  using assms
  by (auto simp: Set_def Let_def split: sum.splits option.splits)

lemma Sets_keeps_buckets:
  "Sets sz t calls = Inr t' \<Longrightarrow>
     capacity (keys t') = capacity (keys t) \<and> capacity (values' t') = capacity (values' t)
     \<and> length (array (keys t')) = length (array (keys t))
     \<and> length (array (values' t')) = length (array (values' t))"
proof (induction calls arbitrary: t)
  case Nil
  then show ?case by simp
next
  case (Cons call calls)
  obtain key v where call: "call = (key, v)"
    by (cases call)
  from Cons.prems obtain t1 where step: "Set sz t key v = Inr t1"
    and rest: "Sets sz t1 calls = Inr t'"
    by (auto simp: call split: sum.splits)
  show ?case
    using Cons.IH [OF rest] Set_keeps_buckets [OF step] by simp
qed

lemma Get_absent:
  assumes "capacity (values' t) \<noteq> 0"
    and "length (array (keys t)) = unat (capacity (values' t))"
    and "length (array (values' t)) = unat (capacity (values' t))"
    and "content key \<notin> set (array (keys t) ! bucket_of sz t key)"
  shows "Get sz t key = Inl KeyNotFound"
  using assms bucket_of_less [of t sz key]
  by (simp add: Get_def bucket_index_ok Array_at_def FindFirstNode_eq)

lemma Has_returns:
  assumes "capacity (values' t) \<noteq> 0"
  shows "\<exists>b. Has sz t key = Inr b \<and> (b \<longleftrightarrow> (\<exists>v. Get sz t key = Inr v))"
proof (cases "Get sz t key")
  case (Inr v)
  then show ?thesis
    by (auto simp: Has_def)
next
  case (Inl e)
  then have "e \<noteq> DivisionByZero"
    using assms
    by (auto simp: Get_def bucket_index_ok Array_at_def NodeAt_def Let_def
        split: if_splits option.splits)
  then show ?thesis
    using Inl by (cases e) (auto simp: Has_def)
qed

text \<open>
  Claim C7, amended.  In a table with at least one bucket, reached from a constructor by
  any run of \<open>Set\<close> calls, \<open>Get\<close> of a key that no chain holds fails with key-not-found and
  \<open>Has\<close> returns false; for every key \<open>Has\<close> returns normally, and returns true
  exactly when \<open>Get\<close> returns a value; on the table as constructed \<open>Get\<close> fails with
  key-not-found for every key.
\<close>

theorem key_not_found:
  assumes "constructed t0" and "Capacity t0 \<noteq> 0"
    and "Sets sz t0 calls = Inr t"
    and "\<forall>i < unat (Capacity t). content key \<notin> set (array (keys t) ! i)"
  shows "Get sz t key = Inl KeyNotFound \<and> Has sz t key = Inr False
         \<and> (\<forall>key'. \<exists>b. Has sz t key' = Inr b \<and> (b \<longleftrightarrow> (\<exists>v. Get sz t key' = Inr v)))
         \<and> Get sz t0 key = Inl KeyNotFound"
proof -
  have ok0: "chains_ok 0 t0" and empty: "\<forall>i < unat (Capacity t0). array (keys t0) ! i = []"
    using constructed_chains [OF assms(1,2)] by simp_all
  have shape0: "capacity (values' t0) \<noteq> 0" "capacity (keys t0) = capacity (values' t0)"
    "length (array (keys t0)) = unat (capacity (values' t0))"
    "length (array (values' t0)) = unat (capacity (values' t0))"
    using ok0 by (simp_all add: chains_ok_def)
  have shape: "capacity (values' t) \<noteq> 0" "capacity (keys t) = capacity (values' t)"
    "length (array (keys t)) = unat (capacity (values' t))"
    "length (array (values' t)) = unat (capacity (values' t))"
    using Sets_keeps_buckets [OF assms(3)] shape0 by simp_all
  have "bucket_of sz t key < unat (Capacity t)"
    using shape bucket_of_less [of t sz key] by (simp add: Capacity_def)
  then have "content key \<notin> set (array (keys t) ! bucket_of sz t key)"
    using assms(4) by simp
  then have 1: "Get sz t key = Inl KeyNotFound"
    using shape by (simp add: Get_absent)
  then have 2: "Has sz t key = Inr False"
    by (simp add: Has_def)
  have 3: "\<exists>b. Has sz t k = Inr b \<and> (b \<longleftrightarrow> (\<exists>v. Get sz t k = Inr v))" for k
    using shape(1) by (rule Has_returns)
  have "bucket_of sz t0 key < unat (Capacity t0)"
    using shape0 bucket_of_less [of t0 sz key] by (simp add: Capacity_def)
  then have "content key \<notin> set (array (keys t0) ! bucket_of sz t0 key)"
    using empty by simp
  then have 4: "Get sz t0 key = Inl KeyNotFound"
    using shape0 by (simp add: Get_absent)
  from 1 2 3 4 show ?thesis
    by blast
qed

theorem key_not_found_witness:
  "constructed (\<lparr>keys = \<lparr>capacity = 2, capacityModifier = 1, count = 0, array = [[], []]\<rparr>,
                values' = \<lparr>capacity = 2, capacityModifier = 1, count = 0, array = [[], []]\<rparr>,
                threshold = 3 / 4, HashingAlgorithm = (\<lambda>raw seed. raw), hashingSeed = 0,
                hashedPairCount = 0\<rparr> :: (int, int) HashTable)
   \<and> Sets 4 \<lparr>keys = \<lparr>capacity = 2, capacityModifier = 1, count = 0, array = [[], []]\<rparr>,
              values' = \<lparr>capacity = 2, capacityModifier = 1, count = 0, array = [[], []]\<rparr>,
              threshold = 3 / 4, HashingAlgorithm = (\<lambda>raw seed. raw), hashingSeed = 0,
              hashedPairCount = 0\<rparr>
        [(\<lparr>address = 8, content = 5 :: int\<rparr>, 1 :: int)]
      = Inr \<lparr>keys = \<lparr>capacity = 2, capacityModifier = 1, count = 0, array = [[5 :: int], []]\<rparr>,
             values' = \<lparr>capacity = 2, capacityModifier = 1, count = 0, array = [[1 :: int], []]\<rparr>,
             threshold = 3 / 4, HashingAlgorithm = (\<lambda>raw seed. raw), hashingSeed = 0,
             hashedPairCount = 1\<rparr>
   \<and> Get 4 \<lparr>keys = \<lparr>capacity = 2, capacityModifier = 1, count = 0, array = [[5 :: int], []]\<rparr>,
             values' = \<lparr>capacity = 2, capacityModifier = 1, count = 0, array = [[1 :: int], []]\<rparr>,
             threshold = 3 / 4, HashingAlgorithm = (\<lambda>raw seed. raw), hashingSeed = 0,
             hashedPairCount = 1\<rparr>
        \<lparr>address = 16, content = 7 :: int\<rparr> = Inl KeyNotFound
   \<and> Has 4 \<lparr>keys = \<lparr>capacity = 2, capacityModifier = 1, count = 0, array = [[5 :: int], []]\<rparr>,
             values' = \<lparr>capacity = 2, capacityModifier = 1, count = 0, array = [[1 :: int], []]\<rparr>,
             threshold = 3 / 4, HashingAlgorithm = (\<lambda>raw seed. raw), hashingSeed = 0,
             hashedPairCount = 1\<rparr>
        \<lparr>address = 16, content = 7 :: int\<rparr> = Inr False"
proof -
  let ?fresh = "\<lparr>keys = \<lparr>capacity = 2, capacityModifier = 1, count = 0, array = [[], []]\<rparr>,
              values' = \<lparr>capacity = 2, capacityModifier = 1, count = 0, array = [[], []]\<rparr>,
              threshold = 3 / 4, HashingAlgorithm = (\<lambda>raw seed. raw), hashingSeed = 0,
              hashedPairCount = 0\<rparr> :: (int, int) HashTable"
  let ?after = "\<lparr>keys = \<lparr>capacity = 2, capacityModifier = 1, count = 0, array = [[5], []]\<rparr>,
             values' = \<lparr>capacity = 2, capacityModifier = 1, count = 0, array = [[1], []]\<rparr>,
             threshold = 3 / 4, HashingAlgorithm = (\<lambda>raw seed. raw), hashingSeed = 0,
             hashedPairCount = 1\<rparr> :: (int, int) HashTable"
  let ?calls = "[(\<lparr>address = 8, content = 5 :: int\<rparr>, 1 :: int)]"
  let ?key = "\<lparr>address = 16, content = 7 :: int\<rparr>"
  have two: "new_array (\<lambda>i. []) 2 = [[], [] :: int list]"
    by (simp add: new_array_def upt_conv_Cons)
  have "HashTable_new 2 1 (3 / 4) 1 (\<lambda>raw seed. raw) 0 = Inr ?fresh"
    by (simp add: HashTable_new_def ValidateThreshold_def DynamicArray_new_def Array_new_def
        LinkedList_empty_def two)
  then have c: "constructed ?fresh"
    by (rule constructed.by_parameters)
  have nz: "Capacity ?fresh \<noteq> 0"
    by (simp add: Capacity_def)
  have run: "Sets 4 ?fresh ?calls = Inr ?after"
    by (simp add: Set_def bucket_index_def Array_at_def FindFirstNode_def FirstNode_def
        EveryNode_def LinkedList_Add_def)
  have absent: "\<forall>i < unat (Capacity ?after). content ?key \<notin> set (array (keys ?after) ! i)"
    by (simp add: Capacity_def less_2_cases_iff)
  from key_not_found [OF c nz run absent]
  have "Get 4 ?after ?key = Inl KeyNotFound" and "Has 4 ?after ?key = Inr False"
    by blast+
  with c run show ?thesis
    by blast
qed

section \<open>Concrete runs: keys hashed by their address\<close>

lemma HashTable_new_ok:
  assumes "modifier \<noteq> 0" and "0 < th" and "th \<le> 1"
    and "unat ((cap div modifier + 1) * modifier) \<le> store"
  shows "\<exists>t. HashTable_new store cap th modifier h seed = Inr t
           \<and> capacity (keys t) = (cap div modifier + 1) * modifier
           \<and> capacity (values' t) = (cap div modifier + 1) * modifier
           \<and> capacityModifier (keys t) = modifier
           \<and> threshold t = th \<and> HashingAlgorithm t = h \<and> hashingSeed t = seed
           \<and> hashedPairCount t = 0"
  using assms
  by (simp add: HashTable_new_def ValidateThreshold_def DynamicArray_new_def Array_new_def Let_def)

lemma Set_keeps_capacity:
  assumes "Set sz t key v = Inr t'"
  shows "Capacity t' = Capacity t \<and> CapacityModifier t' = CapacityModifier t
         \<and> length (array (keys t')) = length (array (keys t))
         \<and> length (array (values' t')) = length (array (values' t))"
  using assms
  by (auto simp: Set_def Capacity_def CapacityModifier_def Let_def
      split: sum.splits option.splits)

lemma after_two_Sets:
  assumes c: "constructed t0" and nz: "Capacity t0 \<noteq> 0"
    and t1: "t1 = Set_result sz t0 k1 v1" and t2: "t2 = Set_result sz t1 k2 v2"
  shows "Set sz t0 k1 v1 = Inr t1" and "Set sz t1 k2 v2 = Inr t2"
    and "bucket_of sz t1 = bucket_of sz t0"
    and "\<And>k. Get sz t2 k = (case assoc t2 (bucket_of sz t0 k) (content k) of
                               Some v \<Rightarrow> Inr v | None \<Rightarrow> Inl KeyNotFound)"
    and "\<And>i k. i < unat (Capacity t0) \<Longrightarrow>
           assoc t2 i k = (if bucket_of sz t0 k2 = i \<and> content k2 = k then Some v2
                           else if bucket_of sz t0 k1 = i \<and> content k1 = k then Some v1
                           else None)"
    and "\<And>i. i < unat (Capacity t0) \<Longrightarrow> array (keys t0) ! i = []"
    and "Capacity t2 = Capacity t0" and "threshold t2 = threshold t0"
proof -
  have ok0: "chains_ok 0 t0" and empty: "\<forall>i < unat (Capacity t0). array (keys t0) ! i = []"
    using constructed_chains [OF c nz] by simp_all
  have cap0: "capacity (values' t0) = Capacity t0"
    using ok0 by (simp add: chains_ok_def Capacity_def)
  show s1: "Set sz t0 k1 v1 = Inr t1"
    unfolding t1 using ok0 by (rule Set_succeeds) simp
  have ok1: "chains_ok 1 t1"
    unfolding t1 using Set_result_chains [OF ok0] by simp
  show s2: "Set sz t1 k2 v2 = Inr t2"
    unfolding t2 using ok1 by (rule Set_succeeds) simp
  have ok2: "chains_ok 2 t2"
    unfolding t2 using Set_result_chains [OF ok1, of sz k2 v2] by (simp add: numeral_2_eq_2)
  show b1: "bucket_of sz t1 = bucket_of sz t0"
    unfolding t1 by (rule bucket_of_Set_result)
  have b2: "bucket_of sz t2 = bucket_of sz t0"
    unfolding t2 using b1 by (simp add: bucket_of_Set_result)
  show "Get sz t2 k = (case assoc t2 (bucket_of sz t0 k) (content k) of
                          Some v \<Rightarrow> Inr v | None \<Rightarrow> Inl KeyNotFound)" for k
    using Get_eq [OF ok2, of sz k] b2 by simp
  have cap1: "capacity (values' t1) = Capacity t0"
    unfolding t1 using cap0 by (simp add: Set_result_parameters)
  show "assoc t2 i k = (if bucket_of sz t0 k2 = i \<and> content k2 = k then Some v2
                        else if bucket_of sz t0 k1 = i \<and> content k1 = k then Some v1
                        else None)" if i: "i < unat (Capacity t0)" for i k
  proof -
    have "assoc t0 i k = None"
      using empty i by (simp add: assoc_def)
    moreover have "assoc t1 i k =
        (if bucket_of sz t0 k1 = i \<and> content k1 = k then Some v1 else assoc t0 i k)"
      unfolding t1 using ok0 i cap0 by (simp add: assoc_Set_result)
    moreover have "assoc t2 i k =
        (if bucket_of sz t1 k2 = i \<and> content k2 = k then Some v2 else assoc t1 i k)"
      unfolding t2 using ok1 i cap1 by (simp add: assoc_Set_result)
    ultimately show ?thesis
      using b1 by simp
  qed
  show "array (keys t0) ! i = []" if "i < unat (Capacity t0)" for i
    using empty that by simp
  show "Capacity t2 = Capacity t0" "threshold t2 = threshold t0"
    unfolding t1 t2 by (simp_all add: Capacity_def Set_result_parameters)
qed

lemma bytes_a: "ToByteArray 281458407681252 = [15, 15, 15, 12, 2, 4, 6, 8, 10, 12, 14, 4]"
  by code_simp

lemma bytes_b: "ToByteArray 281458407681260 = [15, 15, 15, 12, 2, 4, 6, 8, 10, 12, 14, 12]"
  by code_simp

lemma bytes_c: "ToByteArray 281458407681268 = [15, 15, 15, 12, 2, 4, 6, 8, 10, 12, 15, 4]"
  by code_simp

lemma decimal_length_abc:
  "length (to_string 281458407681252) = 15" "length (to_string 281458407681260) = 15"
  "length (to_string 281458407681268) = 15"
  by code_simp+

lemma hash_a: "MurmurHashingAlgorithm 281458407681252 0 = 2336264749685661689"
  by (simp add: MurmurHashingAlgorithm_def bytes_a decimal_length_abc Murmur_round_def PRIME_def
      LONG_MAX_def SHIFTING_RATE_def)

lemma hash_b: "MurmurHashingAlgorithm 281458407681260 0 = 2336264749655561299"
  by (simp add: MurmurHashingAlgorithm_def bytes_b decimal_length_abc Murmur_round_def PRIME_def
      LONG_MAX_def SHIFTING_RATE_def)

lemma hash_c: "MurmurHashingAlgorithm 281458407681268 0 = 2336264647715528912"
  by (simp add: MurmurHashingAlgorithm_def bytes_c decimal_length_abc Murmur_round_def PRIME_def
      LONG_MAX_def SHIFTING_RATE_def)

lemma buckets_500:
  assumes "HashingAlgorithm t = MurmurHashingAlgorithm" and "hashingSeed t = 0"
    and "capacity (values' t) = 500"
  shows "bucket_of 4 t \<lparr>address = 0x7ffe12345670, content = x\<rparr> = 189"
    and "bucket_of 4 t \<lparr>address = 0x7ffe12345674, content = y\<rparr> = 299"
    and "bucket_of 4 t \<lparr>address = 0x7ffe12345678, content = z\<rparr> = 412"
  using assms by (simp_all add: bucket_of_def hash_a hash_b hash_c)

lemma spec_scenario_table:
  "\<exists>t0 :: (int, int) HashTable.
     HashTable_new (500 + k) 4 INITIAL_THRESHOLD HashTable_INITIAL_CAPACITY
       MurmurHashingAlgorithm 0 = Inr t0
     \<and> constructed t0 \<and> Capacity t0 = 500 \<and> capacity (values' t0) = 500
     \<and> HashingAlgorithm t0 = MurmurHashingAlgorithm \<and> hashingSeed t0 = 0
     \<and> hashedPairCount t0 = 0"
proof -
  have "unat ((4 div HashTable_INITIAL_CAPACITY + 1) * HashTable_INITIAL_CAPACITY) \<le> 500 + k"
    by (simp add: HashTable_INITIAL_CAPACITY_def)
  from HashTable_new_ok [where modifier = HashTable_INITIAL_CAPACITY and th = INITIAL_THRESHOLD
      and cap = 4 and store = "500 + k" and h = MurmurHashingAlgorithm and seed = 0, OF _ _ _ this]
  obtain t0 :: "(int, int) HashTable" where
    t0: "HashTable_new (500 + k) 4 INITIAL_THRESHOLD HashTable_INITIAL_CAPACITY
           MurmurHashingAlgorithm 0 = Inr t0"
    "capacity (keys t0) = (4 div HashTable_INITIAL_CAPACITY + 1) * HashTable_INITIAL_CAPACITY"
    "capacity (values' t0) = (4 div HashTable_INITIAL_CAPACITY + 1) * HashTable_INITIAL_CAPACITY"
    "HashingAlgorithm t0 = MurmurHashingAlgorithm" "hashingSeed t0 = 0" "hashedPairCount t0 = 0"
    by (auto simp: HashTable_INITIAL_CAPACITY_def INITIAL_THRESHOLD_def)
  moreover have "constructed t0"
    using t0(1) by (rule constructed.by_parameters)
  ultimately show ?thesis
    by (auto simp: Capacity_def HashTable_INITIAL_CAPACITY_def)
qed

text \<open>
  Claim C1.  \<open>HashTable<int, int> t(4)\<close>, on any free store that grants its 500 buckets
  (\<open>500 + k\<close> elements); three \<open>int\<close> variables next to each other,
  \<open>a = 5\<close>, \<open>b = 7\<close> and \<open>c = 5\<close>.  After \<open>t.Set(a, 1)\<close> and \<open>t.Set(b, 2)\<close>, \<open>Get(a)\<close>
  and \<open>Get(b)\<close> return 1 and 2, but \<open>Get(c)\<close> fails with key-not-found although \<open>c\<close>
  holds the key 5 that was set to 1: the bucket is chosen from the address of the
  argument (bucket 189 for \<open>a\<close>, 412 for \<open>c\<close>), the chain is searched by value.
\<close>

theorem Get_misses_equal_key:
  "\<exists>(t0 :: (int, int) HashTable) t1 t2.
     HashTable_new (500 + k) 4 INITIAL_THRESHOLD HashTable_INITIAL_CAPACITY
       MurmurHashingAlgorithm 0 = Inr t0
     \<and> Set 4 t0 \<lparr>address = 0x7ffe12345670, content = 5\<rparr> 1 = Inr t1
     \<and> Set 4 t1 \<lparr>address = 0x7ffe12345674, content = 7\<rparr> 2 = Inr t2
     \<and> Get 4 t2 \<lparr>address = 0x7ffe12345670, content = 5\<rparr> = Inr 1
     \<and> Get 4 t2 \<lparr>address = 0x7ffe12345674, content = 7\<rparr> = Inr 2
     \<and> Get 4 t2 \<lparr>address = 0x7ffe12345678, content = 5\<rparr> = Inl KeyNotFound"
proof -
  let ?a = "\<lparr>address = 0x7ffe12345670, content = 5 :: int\<rparr>"
  let ?b = "\<lparr>address = 0x7ffe12345674, content = 7 :: int\<rparr>"
  let ?c = "\<lparr>address = 0x7ffe12345678, content = 5 :: int\<rparr>"
  obtain t0 :: "(int, int) HashTable" where
    t0: "HashTable_new (500 + k) 4 INITIAL_THRESHOLD HashTable_INITIAL_CAPACITY
           MurmurHashingAlgorithm 0 = Inr t0"
    and c: "constructed t0" and cap: "Capacity t0 = 500"
    and h: "HashingAlgorithm t0 = MurmurHashingAlgorithm" "hashingSeed t0 = 0"
      "capacity (values' t0) = 500"
    using spec_scenario_table [of k] by blast
  define t1 where "t1 = Set_result 4 t0 ?a 1"
  define t2 where "t2 = Set_result 4 t1 ?b 2"
  have nz: "Capacity t0 \<noteq> 0"
    using cap by simp
  note S = after_two_Sets [OF c nz t1_def t2_def]
  note B = buckets_500 [OF h]
  have "Get 4 t2 ?a = Inr 1" "Get 4 t2 ?b = Inr 2" "Get 4 t2 ?c = Inl KeyNotFound"
    by (simp_all add: S(4) S(5) B cap)
  with t0 S(1,2) show ?thesis
    by blast
qed

text \<open>
  Claim C2.  The same table; \<open>a = 5\<close> and \<open>b = 5\<close> next to each other.  After
  \<open>t.Set(a, 1)\<close> the second call \<open>t.Set(b, 2)\<close>, for the same key 5, adds a second
  entry in another bucket and raises the pair count from 1 to 2; the first entry keeps
  the value 1.
\<close>

theorem second_Set_adds_entry:
  "\<exists>(t0 :: (int, int) HashTable) t1 t2.
     HashTable_new (500 + k) 4 INITIAL_THRESHOLD HashTable_INITIAL_CAPACITY
       MurmurHashingAlgorithm 0 = Inr t0
     \<and> Set 4 t0 \<lparr>address = 0x7ffe12345670, content = 5\<rparr> 1 = Inr t1
     \<and> Set 4 t1 \<lparr>address = 0x7ffe12345674, content = 5\<rparr> 2 = Inr t2
     \<and> hashedPairCount t1 = 1 \<and> hashedPairCount t2 = 2
     \<and> array (keys t2) ! 189 = [5] \<and> array (values' t2) ! 189 = [1]
     \<and> array (keys t2) ! 299 = [5] \<and> array (values' t2) ! 299 = [2]
     \<and> Get 4 t2 \<lparr>address = 0x7ffe12345670, content = 5\<rparr> = Inr 1"
proof -
  let ?a = "\<lparr>address = 0x7ffe12345670, content = 5 :: int\<rparr>"
  let ?b = "\<lparr>address = 0x7ffe12345674, content = 5 :: int\<rparr>"
  obtain t0 :: "(int, int) HashTable" where
    t0: "HashTable_new (500 + k) 4 INITIAL_THRESHOLD HashTable_INITIAL_CAPACITY
           MurmurHashingAlgorithm 0 = Inr t0"
    and c: "constructed t0" and cap: "Capacity t0 = 500"
    and h: "HashingAlgorithm t0 = MurmurHashingAlgorithm" "hashingSeed t0 = 0"
      "capacity (values' t0) = 500"
    and n0: "hashedPairCount t0 = 0"
    using spec_scenario_table [of k] by blast
  define t1 where "t1 = Set_result 4 t0 ?a 1"
  define t2 where "t2 = Set_result 4 t1 ?b 2"
  have nz: "Capacity t0 \<noteq> 0"
    using cap by simp
  note S = after_two_Sets [OF c nz t1_def t2_def]
  note B = buckets_500 [OF h]
  have ok0: "chains_ok 0 t0"
    using constructed_chains [OF c nz] by simp
  have len0: "length (array (keys t0)) = 500" "length (array (values' t0)) = 500"
    "array (keys t0) ! 189 = []" "array (values' t0) ! 189 = []"
    "array (keys t0) ! 299 = []" "array (values' t0) ! 299 = []"
    using ok0 h(3) chains_ok_bucket(3) [OF ok0, of 189] chains_ok_bucket(3) [OF ok0, of 299]
      S(6) [of 189] S(6) [of 299] cap
    by (simp_all add: chains_ok_def)
  have a: "content ?a \<notin> set (array (keys t0) ! bucket_of 4 t0 ?a)"
    by (simp add: B len0)
  note R1 = Set_result_absent [OF a, of 1, folded t1_def]
  have b: "content ?b \<notin> set (array (keys t1) ! bucket_of 4 t1 ?b)"
    by (simp add: S(3) B R1 len0)
  note R2 = Set_result_absent [OF b, of 2, folded t2_def]
  have "hashedPairCount t1 = 1" "hashedPairCount t2 = 2"
    "array (keys t2) ! 189 = [5]" "array (values' t2) ! 189 = [1]"
    "array (keys t2) ! 299 = [5]" "array (values' t2) ! 299 = [2]"
    by (simp_all add: R1 R2 S(3) B len0 n0)
  moreover have "Get 4 t2 ?a = Inr 1"
    by (simp add: S(4) S(5) B cap)
  ultimately show ?thesis
    using t0 S(1,2) by blast
qed

text \<open>
  Claim C4.  \<open>Set\<close> never calls \<open>AdapteCapacity\<close> and never changes a capacity
  (\<open>Set_keeps_capacity\<close>).  \<open>HashTable<int, int> t(1, 0.75F, 1)\<close>, on any free store
  that grants its 2 buckets (\<open>2 + k\<close> elements), has 2 buckets; after two \<open>Set\<close> calls
  with different keys it holds 2 pairs in 2 buckets, an occupancy of 1 above the
  threshold 0.75, with the bucket count it was constructed with.
\<close>

theorem Set_never_grows:
  "\<exists>(t0 :: (int, int) HashTable) t1 t2.
     HashTable_new (2 + k) 1 (3 / 4) 1 MurmurHashingAlgorithm 0 = Inr t0 \<and> Capacity t0 = 2
     \<and> Set 4 t0 \<lparr>address = 0x7ffe12345670, content = 5\<rparr> 1 = Inr t1
     \<and> Set 4 t1 \<lparr>address = 0x7ffe12345674, content = 7\<rparr> 2 = Inr t2
     \<and> hashedPairCount t2 = 2 \<and> Capacity t2 = 2 \<and> length (array (keys t2)) = 2
     \<and> Threshold t2 < rat_of_int (sint (hashedPairCount t2)) / rat_of_nat (unat (Capacity t2))"
proof -
  let ?a = "\<lparr>address = 0x7ffe12345670, content = 5 :: int\<rparr>"
  let ?b = "\<lparr>address = 0x7ffe12345674, content = 7 :: int\<rparr>"
  from HashTable_new_ok [where modifier = 1 and th = "3 / 4" and cap = 1 and store = "2 + k"
      and h = MurmurHashingAlgorithm and seed = 0]
  obtain t0 :: "(int, int) HashTable" where
    t0: "HashTable_new (2 + k) 1 (3 / 4) 1 MurmurHashingAlgorithm 0 = Inr t0"
    and h: "capacity (keys t0) = 2" "capacity (values' t0) = 2"
      "HashingAlgorithm t0 = MurmurHashingAlgorithm" "hashingSeed t0 = 0"
    and n0: "hashedPairCount t0 = 0" and th: "threshold t0 = 3 / 4"
    by auto
  have c: "constructed t0"
    using t0 by (rule constructed.by_parameters)
  have cap: "Capacity t0 = 2"
    using h by (simp add: Capacity_def)
  then have nz: "Capacity t0 \<noteq> 0"
    by simp
  define t1 where "t1 = Set_result 4 t0 ?a 1"
  define t2 where "t2 = Set_result 4 t1 ?b 2"
  note S = after_two_Sets [OF c nz t1_def t2_def]
  have B: "bucket_of 4 t0 ?a = Suc 0" "bucket_of 4 t0 ?b = Suc 0"
    using h by (simp_all add: bucket_of_def hash_a hash_b)
  have ok0: "chains_ok 0 t0"
    using constructed_chains [OF c nz] by simp
  have len0: "length (array (keys t0)) = 2" "array (keys t0) ! Suc 0 = []"
    using ok0 h S(6) [of 1] cap by (simp_all add: chains_ok_def)
  have a: "content ?a \<notin> set (array (keys t0) ! bucket_of 4 t0 ?a)"
    by (simp add: B len0)
  note R1 = Set_result_absent [OF a, of 1, folded t1_def]
  have b: "content ?b \<notin> set (array (keys t1) ! bucket_of 4 t1 ?b)"
    by (simp add: S(3) B R1 len0)
  note R2 = Set_result_absent [OF b, of 2, folded t2_def]
  have count: "hashedPairCount t2 = 2"
    by (simp add: R1 R2 n0)
  have len2: "length (array (keys t2)) = 2"
    by (simp add: R1 R2 len0)
  have "Threshold t2 < rat_of_int (sint (hashedPairCount t2)) / rat_of_nat (unat (Capacity t2))"
    by (simp add: count S(7) S(8) cap th Threshold_def)
  with t0 cap S(1,2) count len2 S(7) show ?thesis
    by auto
qed

section \<open>Reversing a linked list\<close>

lemma along_Next_numeral:
  "along_Next (numeral k) h None = []"
  "along_Next (numeral k) h (Some n) =
     (if n < length h then n # along_Next (pred_numeral k) h (Next (h ! n)) else [])"
  by (simp_all add: numeral_eq_Suc)

lemma along_Previous_numeral:
  "along_Previous (numeral k) h None = []"
  "along_Previous (numeral k) h (Some n) =
     (if n < length h then n # along_Previous (pred_numeral k) h (Previous (h ! n)) else [])"
  by (simp_all add: numeral_eq_Suc)

text \<open>
  Claim C9.  The list built by \<open>Add(1)\<close>, \<open>Add(2)\<close>, \<open>Add(3)\<close> has its nodes 0, 1, 2
  linked consistently in both directions.  After \<open>Reverse()\<close> the walk from the new head
  along \<open>next\<close> meets the three nodes in reversed order and ends at the new tail, but the
  walk from the new tail along \<open>previous\<close> goes 0, 1, 0, 1 and never reaches the head:
  the loop turns only the \<open>next\<close> members, and of the \<open>previous\<close> members only those of
  the two end nodes are assigned afterwards, so the middle node still points back to the
  old head.
\<close>

theorem Reverse_leaves_stale_previous:
  "\<exists>h1 l1 h2 l2 h3 l3 h' l'.
     Add_value [] LinkedList_new (1 :: int) = Some (Inr (h1, l1))
     \<and> Add_value h1 l1 2 = Some (Inr (h2, l2))
     \<and> Add_value h2 l2 3 = Some (Inr (h3, l3))
     \<and> along_Next 4 h3 (Head l3) = [0, 1, 2] \<and> along_Previous 4 h3 (Tail l3) = [2, 1, 0]
     \<and> Reverse h3 l3 = Some (Inr (h', l'))
     \<and> Count l' = 3 \<and> Head l' = Some 2 \<and> Tail l' = Some 0
     \<and> along_Next 4 h' (Head l') = [2, 1, 0]
     \<and> map (\<lambda>n. Data (h' ! n)) (along_Next 4 h' (Head l')) = [3, 2, 1]
     \<and> Previous (h' ! 1) = Some 0
     \<and> along_Previous 4 h' (Tail l') = [0, 1, 0, 1]"
  by (simp add: Add_value_def LinkedList_new_def Node_new_def Add_loop.simps Reverse_def
      Reverse_loop.simps set_Previous_def along_Next_numeral along_Previous_numeral)

section \<open>The hash: binary string, 4-bit digits and decimal length\<close>


lemma to_string_digit: "0 \<le> d \<Longrightarrow> d < 10 \<Longrightarrow> to_string d = [digit_char d]"
  by (simp add: to_string_def to_string_digits.simps)

lemma ToBinary_loop_bits:
  "0 \<le> v \<Longrightarrow> ToBinary_loop v acc = map (\<lambda>b. digit_char (int b)) (bits (nat v)) @ acc"
proof (induction v acc rule: ToBinary_loop.induct)
  case (1 v acc)
  show ?case
  proof (cases "v = 0")
    case True
    then show ?thesis
      by (simp add: ToBinary_loop.simps bits.simps)
  next
    case False
    with "1.prems" have pos: "0 < v"
      by simp
    then have sd: "v sdiv 2 = v div 2" and sm: "v smod 2 = v mod 2"
      by (simp_all add: signed_divide_int_def signed_modulo_int_def sgn_if)
    have step: "ToBinary_loop (v sdiv 2) (to_string (v smod 2) @ acc) =
                  map (\<lambda>b. digit_char (int b)) (bits (nat (v sdiv 2))) @ to_string (v smod 2) @ acc"
      using "1.IH" [OF False] pos by (simp add: sd)
    have "int (nat v mod 2) = v mod 2"
      using pos by (simp add: of_nat_mod)
    then have digit: "to_string (v smod 2) = [digit_char (int (nat v mod 2))]"
      by (simp add: sm to_string_digit)
    have "bits (nat v) = bits (nat v div 2) @ [nat v mod 2]"
      using pos by (simp add: bits.simps [of "nat v"])
    moreover have "nat (v sdiv 2) = nat v div 2"
      using pos by (simp add: sd nat_div_distrib)
    ultimately show ?thesis
      using False step digit by (simp add: ToBinary_loop.simps [of v])
  qed
qed

lemma ToBinary_bits: "ToBinary (int n) = map (\<lambda>b. digit_char (int b)) (bits n)"
  by (simp add: ToBinary_def ToBinary_loop_bits)

lemma fold_add_sum:
  "fold (\<lambda>i (d :: int). d + f i) [0..<n] a = a + (\<Sum>i<n. f i)"
  by (induction n) simp_all

lemma ToDecimal_sum:
  "ToDecimal s = (\<Sum>i<length s. (of_char (s ! i) - of_char CHR ''0'') * 2 ^ (length s - i - 1))"
  by (simp add: ToDecimal_def fold_add_sum)

lemma ToDecimal_snoc:
  "ToDecimal (s @ [c]) = 2 * ToDecimal s + (of_char c - of_char CHR ''0'')"
proof -
  have "(\<Sum>i<length s. (of_char ((s @ [c]) ! i) - of_char CHR ''0'') * (2 :: int) ^ (length s - i))
        = (\<Sum>i<length s. 2 * ((of_char (s ! i) - of_char CHR ''0'') * 2 ^ (length s - i - 1)))"
  proof (rule sum.cong)
    fix i
    assume "i \<in> {..<length s}"
    then have i: "i < length s"
      by simp
    then have "(2 :: int) ^ (length s - i) = 2 * 2 ^ (length s - i - 1)"
      using power_minus_mult [of "length s - i" "2 :: int"] by simp
    then show "(of_char ((s @ [c]) ! i) - of_char CHR ''0'') * (2 :: int) ^ (length s - i)
               = 2 * ((of_char (s ! i) - of_char CHR ''0'') * 2 ^ (length s - i - 1))"
      using i by (simp add: nth_append)
  qed simp
  then show ?thesis
    by (simp add: ToDecimal_sum sum_distrib_left)
qed

lemma ToDecimal_bits:
  "\<forall>b \<in> set bs. b < 2 \<Longrightarrow> ToDecimal (map (\<lambda>b. digit_char (int b)) bs) = int (val bs)"
proof (induction bs rule: rev_induct)
  case Nil
  then show ?case
    by (simp add: ToDecimal_def)
next
  case (snoc b bs)
  then have "b = 0 \<or> b = 1"
    by auto
  then have "of_char (digit_char (int b)) - of_char CHR ''0'' = int b"
    by (auto simp: digit_char_def)
  moreover have "val (bs @ [b]) = 2 * val bs + b"
    by (induction bs) simp_all
  ultimately show ?case
    using snoc by (simp add: ToDecimal_snoc)
qed

lemma val_append: "val (xs @ ys) = val xs * 2 ^ length ys + val ys"
  by (induction xs) (simp_all add: power_add algebra_simps)

lemma val_less: "\<forall>b \<in> set bs. b < 2 \<Longrightarrow> val bs < 2 ^ length bs"
proof (induction bs)
  case Nil
  then show ?case by simp
next
  case (Cons b bs)
  then have "b \<le> 1" and "val bs < 2 ^ length bs"
    by auto
  then have "b * 2 ^ length bs + val bs < 1 * 2 ^ length bs + 2 ^ length bs"
    by (metis add_le_less_mono mult_le_mono1)
  then show ?case
    by simp
qed

lemma bits_0: "bits 0 = []"
  by (simp add: bits.simps)

lemma bits_pos: "n \<noteq> 0 \<Longrightarrow> bits n = bits (n div 2) @ [n mod 2]"
  by (simp add: bits.simps [of n])

lemma bit_count_0: "bit_count 0 = 0"
  by (simp add: bit_count.simps)

lemma bit_count_pos: "n \<noteq> 0 \<Longrightarrow> bit_count n = Suc (bit_count (n div 2))"
  by (simp add: bit_count.simps [of n])

lemma bits_binary: "\<forall>b \<in> set (bits n). b < 2"
proof (induction n rule: bits.induct)
  case (1 n)
  show ?case
  proof (cases "n = 0")
    case True
    then show ?thesis
      by (simp add: bits_0)
  next
    case False
    have "bits n = bits (n div 2) @ [n mod 2]"
      using False by (rule bits_pos)
    moreover have "\<forall>b \<in> set (bits (n div 2)). b < 2"
      using False by (rule "1")
    ultimately show ?thesis
      by auto
  qed
qed

lemma length_bits: "length (bits n) = bit_count n"
proof (induction n rule: bits.induct)
  case (1 n)
  show ?case
  proof (cases "n = 0")
    case True
    then show ?thesis
      by (simp add: bits_0 bit_count_0)
  next
    case False
    have "length (bits n) = Suc (length (bits (n div 2)))"
      by (simp only: bits_pos [OF False] length_append list.size)
    also have "\<dots> = Suc (bit_count (n div 2))"
      by (simp only: "1" [OF False])
    finally show ?thesis
      by (simp only: bit_count_pos [OF False])
  qed
qed

lemma val_bits: "val (bits n) = n"
proof (induction n rule: bits.induct)
  case (1 n)
  show ?case
  proof (cases "n = 0")
    case True
    then show ?thesis
      by (simp add: bits_0)
  next
    case False
    have "val (bits n) = val (bits (n div 2)) * 2 + n mod 2"
      by (simp only: bits_pos [OF False] val_append) simp
    also have "\<dots> = n div 2 * 2 + n mod 2"
      by (simp only: "1" [OF False])
    finally show ?thesis
      by simp
  qed
qed

lemma take_bits:
  "k \<le> bit_count n \<Longrightarrow> take k (bits n) = bits (n div 2 ^ (bit_count n - k))"
proof (induction n rule: bits.induct)
  case (1 n)
  show ?case
  proof (cases "n = 0")
    case True
    then show ?thesis
      by (simp add: bits_0)
  next
    case False
    then have L: "bit_count n = Suc (bit_count (n div 2))"
      by (rule bit_count_pos)
    show ?thesis
    proof (cases "k = bit_count n")
      case True
      then show ?thesis
        by (simp add: length_bits)
    next
      case less: False
      with "1.prems" L have k: "k \<le> bit_count (n div 2)"
        by simp
      have "take k (bits n) = take k (bits (n div 2))"
        using k by (simp add: bits_pos [OF False] length_bits)
      also have "\<dots> = bits (n div 2 div 2 ^ (bit_count (n div 2) - k))"
        using "1.IH" [OF False k] .
      also have "n div 2 div 2 ^ (bit_count (n div 2) - k) = n div 2 ^ (bit_count n - k)"
        using k by (simp add: L div_mult2_eq Suc_diff_le)
      finally show ?thesis .
    qed
  qed
qed

lemma val_drop_bits:
  assumes "k \<le> bit_count m"
  shows "val (drop k (bits m)) = m mod 2 ^ (bit_count m - k)"
proof -
  let ?r = "bit_count m - k"
  have "val (bits m) = val (take k (bits m) @ drop k (bits m))"
    by (simp only: append_take_drop_id)
  also have "\<dots> = val (take k (bits m)) * 2 ^ length (drop k (bits m)) + val (drop k (bits m))"
    by (rule val_append)
  also have "val (take k (bits m)) = m div 2 ^ ?r"
    by (simp only: take_bits [OF assms] val_bits)
  also have "length (drop k (bits m)) = ?r"
    by (simp add: length_bits)
  finally have "m div 2 ^ ?r * 2 ^ ?r + val (drop k (bits m)) = m"
    by (simp only: val_bits)
  moreover have "m div 2 ^ ?r * 2 ^ ?r + m mod 2 ^ ?r = m"
    by (rule div_mult_mod_eq)
  ultimately show ?thesis
    by linarith
qed

lemma val_chunk:
  assumes "k + w \<le> bit_count n"
  shows "val (take w (drop k (bits n))) = (n div 2 ^ (bit_count n - (k + w))) mod 2 ^ w"
proof -
  let ?m = "n div 2 ^ (bit_count n - (k + w))"
  have "take w (drop k (bits n)) = drop k (take (k + w) (bits n))"
    by (simp add: drop_take)
  also have "take (k + w) (bits n) = bits ?m"
    using assms by (rule take_bits)
  finally have chunk: "take w (drop k (bits n)) = drop k (bits ?m)" .
  have "bit_count ?m = length (bits ?m)"
    by (simp only: length_bits)
  also have "\<dots> = length (take (k + w) (bits n))"
    by (simp only: take_bits [OF assms])
  also have "\<dots> = k + w"
    using assms by (simp add: length_bits)
  finally have "bit_count ?m = k + w" .
  then show ?thesis
    using val_drop_bits [of k ?m] chunk by simp
qed

lemma fold_update_prefix:
  "k \<le> length xs \<Longrightarrow> fold (\<lambda>i bs. bs[i := f i]) [0..<k] xs = map f [0..<k] @ drop k xs"
proof (induction k)
  case 0
  then show ?case by simp
next
  case (Suc k)
  then have k: "k < length xs"
    by simp
  have "(map f [0..<k] @ drop k xs)[k := f k] = map f [0..<k] @ (drop k xs)[0 := f k]"
    by (simp add: list_update_append)
  also have "(drop k xs)[0 := f k] = f k # drop (Suc k) xs"
    using k by (simp add: Cons_nth_drop_Suc [symmetric])
  finally show ?case
    using Suc k by simp
qed

lemma fold_update_all:
  "fold (\<lambda>i bs. bs[i := f i]) [0..<m] (map z [0..<m]) = map f [0..<m]"
  using fold_update_prefix [of m "map z [0..<m]" f] by simp

lemma byteCount_eq:
  "nat \<lceil>rat_of_nat L / rat_of_nat BIT_COUNT_IN_BYTE\<rceil> = (L + 3) div 4"
proof -
  have "\<lceil>rat_of_nat L / rat_of_nat 4\<rceil> = - (- int L div 4)"
    using ceiling_divide_eq_div [of "int L" 4, where ?'a = rat] by simp
  then show ?thesis
    by (simp add: BIT_COUNT_IN_BYTE_def)
qed

lemma chunk_nibble:
  assumes i: "i < (bit_count n + 3) div 4"
  shows "ToDecimal (substr (ToBinary (int n)) (i * BIT_COUNT_IN_BYTE) BIT_COUNT_IN_BYTE)
           = int (nibble n i)"
proof -
  let ?L = "bit_count n"
  let ?w = "min 4 (?L - 4 * i)"
  let ?c = "\<lambda>b. digit_char (int b)"
  have k: "4 * i < ?L"
    using i by linarith
  have "take 4 (drop (4 * i) (bits n)) = take ?w (drop (4 * i) (bits n))"
    by (simp add: min_def length_bits)
  then have chunk: "substr (ToBinary (int n)) (i * BIT_COUNT_IN_BYTE) BIT_COUNT_IN_BYTE
                      = map ?c (take ?w (drop (4 * i) (bits n)))"
    by (simp add: substr_def ToBinary_bits BIT_COUNT_IN_BYTE_def take_map drop_map mult.commute)
  have "\<forall>b \<in> set (take ?w (drop (4 * i) (bits n))). b < 2"
    using bits_binary [of n] by (meson in_set_dropD in_set_takeD)
  then have "ToDecimal (map ?c (take ?w (drop (4 * i) (bits n))))
               = int (val (take ?w (drop (4 * i) (bits n))))"
    by (rule ToDecimal_bits)
  moreover have "val (take ?w (drop (4 * i) (bits n)))
                   = (n div 2 ^ (?L - (4 * i + ?w))) mod 2 ^ ?w"
    using k by (intro val_chunk) simp
  moreover have "4 * i + ?w = min ?L (4 * i + 4)"
    using k by simp
  ultimately show ?thesis
    by (simp add: chunk nibble_def)
qed

lemma ToByteArray_nibbles: "ToByteArray (int n) = map word_of_nat (nibbles n)"
proof -
  let ?m = "(bit_count n + 3) div 4"
  have len: "length (ToBinary (int n)) = bit_count n"
    by (simp add: ToBinary_bits length_bits)
  have "ToByteArray (int n) =
          map (\<lambda>i. word_of_int (ToDecimal
                 (substr (ToBinary (int n)) (i * BIT_COUNT_IN_BYTE) BIT_COUNT_IN_BYTE))) [0..<?m]"
    by (simp add: ToByteArray_def Let_def len byteCount_eq new_array_def fold_update_all)
  also have "\<dots> = map (\<lambda>i. word_of_nat (nibble n i)) [0..<?m]"
    by (rule map_cong) (simp_all add: chunk_nibble)
  finally show ?thesis
    by (simp add: nibbles_def)
qed

lemma length_to_string: "length (to_string (int n)) = decimal_count n"
proof (induction n rule: decimal_count.induct)
  case (1 n)
  show ?case
  proof (cases "n < 10")
    case True
    then show ?thesis
      by (simp add: to_string_def to_string_digits.simps [of "int n"] decimal_count.simps [of n])
  next
    case False
    have "int n div 10 = int (n div 10)"
      by (simp add: zdiv_int)
    then have "length (to_string_digits (int n)) = Suc (length (to_string_digits (int (n div 10))))"
      using False by (simp add: to_string_digits.simps [of "int n"])
    moreover have "length (to_string_digits (int (n div 10))) = decimal_count (n div 10)"
      using "1" [OF False] by (simp add: to_string_def)
    ultimately show ?thesis
      using False by (simp add: to_string_def decimal_count.simps [of n])
  qed
qed

lemma nibbles_10: "nibbles 10 = [10]"
  by code_simp

lemma nibbles_0: "nibbles 0 = []"
  by code_simp

lemma bytes_10: "ToByteArray 10 = [10]"
  by code_simp

lemma bytes_0: "ToByteArray 0 = []"
  by code_simp

lemma decimal_length_10: "length (to_string 10) = 2" "length (to_string 0) = 1"
  by code_simp+

text \<open>
  Claim C5, as stated, fails.  The value 10 has one 4-bit digit and two decimal digits:
  the source starts the accumulator from \<open>seed ^ 2\<close> (the length of
  \<open>std::to_string(rawHashing)\<close>), the computation of the claim from \<open>seed ^ 1\<close>, and the
  results differ.  For 0, which has no 4-bit digit, the source returns 2003 and the
  computation of the claim 0.
\<close>

theorem digit_count_counterexample:
  "MurmurHashingAlgorithm 10 0 \<noteq> Hash_reference 10 0
   \<and> MurmurHashingAlgorithm 10 0 = 16785141 \<and> Hash_reference 10 0 = 20913322
   \<and> MurmurHashingAlgorithm 0 0 = 2003 \<and> Hash_reference 0 0 = 0"
  by (simp add: MurmurHashingAlgorithm_def Hash_reference_def Hash_finish_def bytes_10 bytes_0
      nibbles_10 nibbles_0 decimal_length_10 Murmur_round_def PRIME_def LONG_MAX_def
      SHIFTING_RATE_def)

text \<open>
  Claim C5, amended.  For every non-negative \<open>rawValue\<close> and every seed the source
  computes this: split the binary representation of \<open>rawValue\<close>, from its most
  significant bit, into 4-bit digits (the last digit takes the one to four bits that
  remain); start the accumulator from the seed XOR the number of decimal digits of
  \<open>rawValue\<close>; fold each digit in, most significant first, by the round of prime-multiply,
  mask and shift-XOR; finish with shift-XOR, prime-multiply, shift-XOR.
\<close>

theorem Murmur_digits:
  assumes "0 \<le> sint rawValue"
  shows "MurmurHashingAlgorithm rawValue seed = Hash_amended rawValue seed"
proof -
  have "sint rawValue < 2 ^ 64"
    using sint_lt [of rawValue] by simp
  then have "sint rawValue mod 2 ^ 64 = sint rawValue"
    using assms by simp
  moreover have "uint rawValue = sint rawValue mod 2 ^ 64"
    using uint_word_of_int [of "sint rawValue", where ?'a = 64] by simp
  ultimately have eq: "sint rawValue = int (unat rawValue)"
    by simp
  have bytes: "ToByteArray (sint rawValue) = map word_of_nat (nibbles (unat rawValue))"
    unfolding eq by (rule ToByteArray_nibbles)
  have len: "length (to_string (sint rawValue)) = decimal_count (unat rawValue)"
    unfolding eq by (rule length_to_string)
  show ?thesis
    by (simp add: MurmurHashingAlgorithm_def Hash_amended_def Hash_finish_def Let_def bytes len)
qed

theorem Murmur_digits_witness:
  "0 \<le> sint (10 :: long) \<and> MurmurHashingAlgorithm 10 0 = Hash_amended 10 0"
  using Murmur_digits [of 10 0] by simp

end
